theory Spec2Isabelle
  imports Main "HOL-Library.Word"
begin

unbundle bit_operations_syntax

section \<open>go-lru: a sharded LRU cache with sliding expiration\<close>

text \<open>
  The development embeds \<^verbatim>\<open>lru.go\<close> and \<^verbatim>\<open>shard.go\<close>.
  Go objects reached through pointers (the entries held by list elements and by the
  index of a shard) live in an explicit store, so that an assignment through one pointer
  is seen through every other pointer to the same entry. A panic of the Go runtime is a
  value of type \<open>failure\<close>. The clock reading of \<^verbatim>\<open>time.Now()\<close> is an
  argument \<open>now\<close> of every operation that reads the clock. Locks are not modelled: each
  operation is taken as one atomic step.
\<close>

subsection \<open>Data\<close>

type_synonym addr = nat

text \<open>A \<^verbatim>\<open>time.Time\<close> and a \<^verbatim>\<open>time.Duration\<close> are counts of nanoseconds.\<close>

type_synonym time = int

datatype failure = NilDereference | DivideByZero | IndexOutOfRange | MakeSliceLen

text \<open>
  The struct \<^verbatim>\<open>Entry\<close>, declared in the second part of \<^verbatim>\<open>lrubench_test.go\<close>:
  a key, a value of any type, and a pointer to a time that is \<^verbatim>\<open>nil\<close> when the
  entry has no deadline.
\<close>

record 'v Entry =
  Key :: string
  Value :: 'v
  Expiration :: "time option"

text \<open>
  A shard: the recency list (front first) and the index. A list element and the entry
  it owns are one address of the store.
\<close>

record lruShard =
  lst :: "addr list"
  table :: "string \<rightharpoonup> addr"

text \<open>
  The cache. The fields \<open>TTL\<close> to \<open>eps\<close> are those of the Go struct; \<open>OnRemove\<close>
  tells whether a removal hook is set. The last three fields are the part of the Go
  runtime the cache acts on: \<open>store\<close> holds the entry at each address, every address
  from \<open>fresh\<close> on is unallocated, and \<open>hooked\<close> lists, oldest first, the entries the
  removal hook has been called with. The two \<^verbatim>\<open>sync.Pool\<close>s only recycle
  objects: an entry returned to the pool has had its expiration reset by \<open>remove\<close>, and
  its key and value are overwritten when it is taken again, so taking an entry from the
  pool is the allocation of a fresh address. The states of the cache are the same either
  way; what the model does not show is that a pointer a caller or the hook has kept to a
  removed entry may, in the code, come to point to the entry of a later key.
\<close>

record 'v LRU =
  TTL :: int
  OnRemove :: bool
  shards :: "lruShard list"
  shardSize :: int
  eps :: int
  store :: "addr \<Rightarrow> 'v Entry"
  fresh :: addr
  hooked :: "'v Entry list"

definition NoExpiration :: int where
  "NoExpiration = 0"

definition SHARD_SIZE_DEFAULT :: int where
  "SHARD_SIZE_DEFAULT = 64"

subsection \<open>The recency list\<close>

text \<open>
  Modelled from the spec: the package \<^verbatim>\<open>go-lru/list\<close> is not among the sources.
  The spec describes a doubly linked list ordered by recency, front the most recently
  used and back the least; the operations below are the ones \<^verbatim>\<open>shard.go\<close> and
  \<^verbatim>\<open>lru.go\<close> call on it.
\<close>

definition list_New :: "addr list" where
  "list_New = []"

definition list_PushFrontElement :: "addr list \<Rightarrow> addr \<Rightarrow> addr list" where
  "list_PushFrontElement l el = el # l"

definition list_Back :: "addr list \<Rightarrow> addr option" where
  "list_Back l = (if l = [] then None else Some (last l))"

definition list_Remove :: "addr list \<Rightarrow> addr \<Rightarrow> addr list" where
  "list_Remove l el = removeAll el l"

definition list_MoveToFront :: "addr list \<Rightarrow> addr \<Rightarrow> addr list" where
  "list_MoveToFront l el = (if el \<in> set l then el # removeAll el l else l)"

definition list_Len :: "addr list \<Rightarrow> int" where
  "list_Len l = int (length l)"

subsection \<open>shard.go\<close>

definition newShard :: lruShard where
  "newShard = \<lparr>lst = list_New, table = Map.empty\<rparr>"

text \<open>The shard operations read the key of an entry from the store \<open>st\<close>.\<close>

definition lruShard_add :: "(addr \<Rightarrow> 'v Entry) \<Rightarrow> lruShard \<Rightarrow> addr \<Rightarrow> lruShard" where
  "lruShard_add st s el =
     s\<lparr>lst := list_PushFrontElement (lst s) el, table := (table s)(Key (st el) \<mapsto> el)\<rparr>"

definition lruShard_get :: "lruShard \<Rightarrow> string \<Rightarrow> addr option" where
  "lruShard_get s key = table s key"

definition lruShard_putIfAbsent :: "(addr \<Rightarrow> 'v Entry) \<Rightarrow> lruShard \<Rightarrow> addr \<Rightarrow> lruShard" where
  "lruShard_putIfAbsent st s el =
     (case table s (Key (st el)) of None \<Rightarrow> lruShard_add st s el | Some _ \<Rightarrow> s)"

definition lruShard_oldest :: "lruShard \<Rightarrow> addr option" where
  "lruShard_oldest s = list_Back (lst s)"

definition lruShard_remove :: "(addr \<Rightarrow> 'v Entry) \<Rightarrow> lruShard \<Rightarrow> addr \<Rightarrow> lruShard" where
  "lruShard_remove st s el =
     s\<lparr>table := (table s)(Key (st el) := None), lst := list_Remove (lst s) el\<rparr>"

definition lruShard_offer :: "lruShard \<Rightarrow> addr \<Rightarrow> lruShard" where
  "lruShard_offer s el = s\<lparr>lst := list_MoveToFront (lst s) el\<rparr>"

definition lruShard_len :: "lruShard \<Rightarrow> int" where
  "lruShard_len s = list_Len (lst s)"

subsection \<open>lru.go: construction and routing\<close>

text \<open>
  \<^verbatim>\<open>make\<close> panics when the length is negative or the slice would exceed the
  largest allocation of the runtime: \<open>2 ^ 48\<close> bytes on a 64-bit platform with 48
  address bits, so \<open>2 ^ 45\<close> pointers of 8 bytes.
\<close>

definition maxSliceLen :: int where
  "maxSliceLen = 2 ^ 45"

text \<open>
  \<open>NewLRU\<close> panics on a division by zero or on a slice length \<^verbatim>\<open>make\<close> refuses.
  Past these two checks \<open>shardSize\<close> is positive, and \<open>entrySize\<close> is either at least
  128 or divided by 1, so Go's truncating division and remainder agree with \<open>div\<close> and
  \<open>mod\<close>. The argument \<open>mem\<close> is the content of the store the cache is created in.
\<close>

definition NewLRU :: "(addr \<Rightarrow> 'v Entry) \<Rightarrow> int \<Rightarrow> int \<Rightarrow> int \<Rightarrow> failure + 'v LRU" where
  "NewLRU mem entrySize shardSize0 ttl =
     (let shardSize1 = (if entrySize < 128 then 1 else shardSize0) in
      if shardSize1 = 0 then Inl DivideByZero
      else if shardSize1 < 0 \<or> maxSliceLen < shardSize1 then Inl MakeSliceLen
      else
        let eps0 = entrySize div shardSize1;
            eps1 = (if entrySize mod shardSize1 > 0 then eps0 + 1 else eps0)
        in Inr \<lparr>TTL = ttl, OnRemove = False,
                shards = replicate (nat shardSize1) newShard,
                shardSize = shardSize1, eps = eps1,
                store = mem, fresh = 0, hooked = []\<rparr>)"

definition New :: "(addr \<Rightarrow> 'v Entry) \<Rightarrow> int \<Rightarrow> failure + 'v LRU" where
  "New mem entrySize = NewLRU mem entrySize SHARD_SIZE_DEFAULT NoExpiration"

text \<open>The 32-bit FNV-1 hash of \<^verbatim>\<open>hash/fnv\<close>: multiply by the prime, then xor the byte.\<close>

definition Sum32 :: "string \<Rightarrow> 32 word" where
  "Sum32 key = fold (\<lambda>ch h. (h * 16777619) XOR of_nat (of_char ch)) key 2166136261"

text \<open>
  \<open>getShard\<close> returns the index of the shard the key routes to. The conversion
  \<^verbatim>\<open>uint(c.shardSize)\<close> is the residue modulo \<open>2 ^ 64\<close>.
\<close>

definition getShard :: "'v LRU \<Rightarrow> string \<Rightarrow> failure + nat" where
  "getShard c key =
     (let n = shardSize c mod 2 ^ 64 in
      if n = 0 then Inl DivideByZero
      else
        let i = nat (uint (Sum32 key) mod n) in
        if i < length (shards c) then Inr i else Inl IndexOutOfRange)"

text \<open>
  \<open>genExp\<close> reads the clock; the reading is its argument \<open>now\<close>. The sum
  \<open>now + ttl\<close> is taken without a bound on the range of a time.
\<close>

definition genExp :: "time \<Rightarrow> int \<Rightarrow> time \<times> time option" where
  "genExp now ttl = (now, if ttl \<noteq> NoExpiration then Some (now + ttl) else None)"

text \<open>\<^verbatim>\<open>entry.Expiration.Before(now)\<close> dereferences the pointer \<^verbatim>\<open>Expiration\<close>.\<close>

definition Before :: "time option \<Rightarrow> time \<Rightarrow> failure + bool" where
  "Before t u = (case t of None \<Rightarrow> Inl NilDereference | Some d \<Rightarrow> Inr (d < u))"

subsection \<open>lru.go: the operations\<close>

text \<open>The shard argument of \<open>remove\<close> and \<open>getEntry\<close> is the index \<open>i\<close> of the shard.\<close>

definition remove :: "'v LRU \<Rightarrow> nat \<Rightarrow> addr \<Rightarrow> 'v LRU" where
  "remove c i el =
     (let c1 = c\<lparr>shards := (shards c)[i := lruShard_remove (store c) (shards c ! i) el]\<rparr>;
          entry = store c1 el;
          c2 = (if OnRemove c1 then c1\<lparr>hooked := hooked c1 @ [entry]\<rparr> else c1)
      in c2\<lparr>store := (store c2)(el := entry\<lparr>Expiration := None\<rparr>)\<rparr>)"

definition getEntry ::
  "'v LRU \<Rightarrow> nat \<Rightarrow> string \<Rightarrow> time \<Rightarrow> time option \<Rightarrow> failure + (addr option \<times> 'v LRU)" where
  "getEntry c i key now exp =
     (case lruShard_get (shards c ! i) key of
        None \<Rightarrow> Inr (None, c)
      | Some el \<Rightarrow>
          (let entry = store c el in
           case (if TTL c \<noteq> NoExpiration then Before (Expiration entry) now else Inr False) of
             Inl e \<Rightarrow> Inl e
           | Inr True \<Rightarrow> Inr (None, remove c i el)
           | Inr False \<Rightarrow>
               Inr (Some el,
                    c\<lparr>store := (store c)(el := entry\<lparr>Expiration := exp\<rparr>),
                      shards := (shards c)[i := lruShard_offer (shards c ! i) el]\<rparr>)))"

definition SetWithTTL :: "'v LRU \<Rightarrow> string \<Rightarrow> 'v \<Rightarrow> int \<Rightarrow> time \<Rightarrow> failure + 'v LRU" where
  "SetWithTTL c key val ttl clock =
     (let (now, exp) = genExp clock ttl in
      case getShard c key of
        Inl e \<Rightarrow> Inl e
      | Inr i \<Rightarrow>
          (case getEntry c i key now exp of
             Inl e \<Rightarrow> Inl e
           | Inr (Some el, c1) \<Rightarrow>
               Inr (c1\<lparr>store := (store c1)(el := (store c1 el)\<lparr>Value := val\<rparr>)\<rparr>)
           | Inr (None, c1) \<Rightarrow>
               (let el = fresh c1;
                    entry = \<lparr>Key = key, Value = val,
                             Expiration = (if ttl \<noteq> NoExpiration then exp else None)\<rparr>;
                    c2 = c1\<lparr>fresh := Suc el, store := (store c1)(el := entry)\<rparr>;
                    c3 = c2\<lparr>shards := (shards c2)[i := lruShard_add (store c2) (shards c2 ! i) el]\<rparr>
                in if lruShard_len (shards c3 ! i) > eps c3
                   then (case lruShard_oldest (shards c3 ! i) of
                           None \<Rightarrow> Inl NilDereference
                         | Some old \<Rightarrow> Inr (remove c3 i old))
                   else Inr c3)))"

definition Set :: "'v LRU \<Rightarrow> string \<Rightarrow> 'v \<Rightarrow> time \<Rightarrow> failure + 'v LRU" where
  "Set c key val clock = SetWithTTL c key val (TTL c) clock"

text \<open>\<open>Get\<close> returns \<open>Some\<close> of the value when the key is found, \<open>None\<close> otherwise.\<close>

definition Get :: "'v LRU \<Rightarrow> string \<Rightarrow> time \<Rightarrow> failure + ('v option \<times> 'v LRU)" where
  "Get c key clock =
     (let (now, exp) = genExp clock (TTL c) in
      case getShard c key of
        Inl e \<Rightarrow> Inl e
      | Inr i \<Rightarrow>
          (case getEntry c i key now exp of
             Inl e \<Rightarrow> Inl e
           | Inr (None, c1) \<Rightarrow> Inr (None, c1)
           | Inr (Some el, c1) \<Rightarrow> Inr (Some (Value (store c1 el)), c1)))"

text \<open>\<open>GetEntry\<close> returns the pointer to the entry: its address in the store.\<close>

definition GetEntry :: "'v LRU \<Rightarrow> string \<Rightarrow> time \<Rightarrow> failure + (addr option \<times> 'v LRU)" where
  "GetEntry c key clock =
     (let (now, exp) = genExp clock (TTL c) in
      case getShard c key of
        Inl e \<Rightarrow> Inl e
      | Inr i \<Rightarrow> getEntry c i key now exp)"

text \<open>A callback receives the pointer to the entry and may assign to each of its fields.\<close>

definition Update ::
  "'v LRU \<Rightarrow> string \<Rightarrow> ('v Entry \<Rightarrow> 'v Entry) \<Rightarrow> time \<Rightarrow> failure + (addr option \<times> 'v LRU)" where
  "Update c key cb clock =
     (let (now, exp) = genExp clock (TTL c) in
      case getShard c key of
        Inl e \<Rightarrow> Inl e
      | Inr i \<Rightarrow>
          (case getEntry c i key now exp of
             Inl e \<Rightarrow> Inl e
           | Inr (None, c1) \<Rightarrow> Inr (None, c1)
           | Inr (Some el, c1) \<Rightarrow>
               Inr (Some el, c1\<lparr>store := (store c1)(el := cb (store c1 el))\<rparr>)))"

definition Remove :: "'v LRU \<Rightarrow> string \<Rightarrow> failure + 'v LRU" where
  "Remove c key =
     (case getShard c key of
        Inl e \<Rightarrow> Inl e
      | Inr i \<Rightarrow>
          (case lruShard_get (shards c ! i) key of
             None \<Rightarrow> Inr c
           | Some el \<Rightarrow> Inr (remove c i el)))"

text \<open>The loop of \<open>Len\<close> over the shard indexes \<open>0\<close> to \<open>shardSize - 1\<close>.\<close>

fun Len_loop :: "lruShard list \<Rightarrow> nat list \<Rightarrow> int \<Rightarrow> failure + int" where
  "Len_loop ss [] len = Inr len"
| "Len_loop ss (i # is) len =
     (if i < length ss then Len_loop ss is (len + lruShard_len (ss ! i))
      else Inl IndexOutOfRange)"

definition Len :: "'v LRU \<Rightarrow> failure + int" where
  "Len c = Len_loop (shards c) [0..<nat (shardSize c)] 0"

text \<open>The inner loop of \<open>Flush\<close>: the hook is called on each element, front to back.\<close>

fun Flush_notify :: "'v LRU \<Rightarrow> addr list \<Rightarrow> 'v LRU" where
  "Flush_notify c [] = c"
| "Flush_notify c (el # els) =
     Flush_notify (if OnRemove c then c\<lparr>hooked := hooked c @ [store c el]\<rparr> else c) els"

fun Flush_loop :: "'v LRU \<Rightarrow> nat list \<Rightarrow> failure + 'v LRU" where
  "Flush_loop c [] = Inr c"
| "Flush_loop c (i # is) =
     (if i < length (shards c) then
        (let oldLst = lst (shards c ! i);
             c1 = c\<lparr>shards := (shards c)[i := (shards c ! i)\<lparr>lst := list_New, table := Map.empty\<rparr>]\<rparr>
         in Flush_loop (Flush_notify c1 oldLst) is)
      else Inl IndexOutOfRange)"

definition Flush :: "'v LRU \<Rightarrow> failure + 'v LRU" where
  "Flush c = Flush_loop c [0..<nat (shardSize c)]"

text \<open>
  The decoder of \<open>Load\<close> is the list of its outcomes: each \<^verbatim>\<open>Decode\<close> yields a
  record or fails with an error, and the end of the list is \<^verbatim>\<open>io.EOF\<close>. \<open>Load\<close>
  returns the error, \<open>None\<close> for \<^verbatim>\<open>nil\<close>. Each record is decoded into a newly
  allocated entry.
\<close>

datatype 'v decoded = Record "'v Entry" | DecodeError string

fun Load :: "'v LRU \<Rightarrow> 'v decoded list \<Rightarrow> failure + (string option \<times> 'v LRU)" where
  "Load c [] = Inr (None, c)"
| "Load c (DecodeError err # rest) = Inr (Some err, c)"
| "Load c (Record entry # rest) =
     (case getShard c (Key entry) of
        Inl e \<Rightarrow> Inl e
      | Inr i \<Rightarrow>
          (let el = fresh c;
               c1 = c\<lparr>fresh := Suc el, store := (store c)(el := entry)\<rparr>
           in Load (c1\<lparr>shards := (shards c1)[i := lruShard_putIfAbsent (store c1) (shards c1 ! i) el]\<rparr>)
                   rest))"


subsection \<open>Predicates on cache states\<close>

text \<open>
  The shape \<open>NewLRU\<close> gives a cache: as many shards as \<open>shardSize\<close> says, at least
  one, and \<open>shardSize\<close> in the range of a Go \<^verbatim>\<open>int\<close>.
\<close>

definition shaped :: "'v LRU \<Rightarrow> bool" where
  "shaped c = (0 < shardSize c \<and> shardSize c < 2 ^ 63 \<and> shardSize c = int (length (shards c)))"

text \<open>
  The elements of the list of shard \<open>i\<close> are distinct allocated addresses; each is
  indexed under the key of its entry, and that key routes to shard \<open>i\<close>.
\<close>

definition shard_inv :: "'v LRU \<Rightarrow> nat \<Rightarrow> bool" where
  "shard_inv c i =
     (distinct (lst (shards c ! i)) \<and>
      list_all (\<lambda>a. a < fresh c \<and> table (shards c ! i) (Key (store c a)) = Some a \<and>
                     getShard c (Key (store c a)) = Inr i)
               (lst (shards c ! i)))"

text \<open>Every shard holds at most \<open>eps\<close> entries.\<close>

definition within_eps :: "'v LRU \<Rightarrow> bool" where
  "within_eps c = list_all (\<lambda>s. lruShard_len s \<le> eps c) (shards c)"

text \<open>
  An entry is live at a clock reading when the cache has no default TTL, or when its
  deadline is set and not before the reading.
\<close>

definition live :: "'v LRU \<Rightarrow> addr \<Rightarrow> time \<Rightarrow> bool" where
  "live c a now =
     (TTL c = NoExpiration \<or>
      (case Expiration (store c a) of None \<Rightarrow> False | Some d \<Rightarrow> \<not> d < now))"

text \<open>
  The index of shard \<open>i\<close> only holds elements of its list, each under the key of its
  entry. With \<open>shard_inv\<close> for every shard and the shape of \<open>NewLRU\<close> this is the
  invariant of the states that \<open>NewLRU\<close> creates and the operations reach.
\<close>

definition indexed_ok :: "'v LRU \<Rightarrow> nat \<Rightarrow> bool" where
  "indexed_ok c i =
     (\<forall>k a. table (shards c ! i) k = Some a \<longrightarrow>
        a \<in> set (lst (shards c ! i)) \<and> Key (store c a) = k)"

definition cache_inv :: "'v LRU \<Rightarrow> bool" where
  "cache_inv c = (shaped c \<and> (\<forall>i<length (shards c). shard_inv c i \<and> indexed_ok c i))"

text \<open>
  The least recently used entry of shard \<open>i\<close> once the entry \<open>new\<close> has been inserted
  at the front of its list: the entry of the element at the back of the list, or \<open>new\<close>
  itself when the list was empty.
\<close>

definition lru_entry :: "'v LRU \<Rightarrow> nat \<Rightarrow> 'v Entry \<Rightarrow> 'v Entry" where
  "lru_entry c i new =
     (if lst (shards c ! i) = [] then new else store c (last (lst (shards c ! i))))"

subsection \<open>Example states\<close>

text \<open>
  A store of integer-valued entries, and the caches \<open>NewLRU blank 1 1 0\<close> and
  \<open>NewLRU blank 1 1 10\<close>: one shard of capacity one, without and with a default TTL.
\<close>

definition blank :: "addr \<Rightarrow> int Entry" where
  "blank = (\<lambda>_. \<lparr>Key = [], Value = 0, Expiration = None\<rparr>)"

definition plain1 :: "int LRU" where
  "plain1 = \<lparr>TTL = 0, OnRemove = False, shards = [\<lparr>lst = [], table = Map.empty\<rparr>],
             shardSize = 1, eps = 1, store = blank, fresh = 0, hooked = []\<rparr>"

definition timed1 :: "int LRU" where
  "timed1 = \<lparr>TTL = 10, OnRemove = False, shards = [\<lparr>lst = [], table = Map.empty\<rparr>],
             shardSize = 1, eps = 1, store = blank, fresh = 0, hooked = []\<rparr>"

text \<open>
  The state of \<open>plain1\<close> with the hook set after \<open>Set ''a'' 1\<close>, and of \<open>timed1\<close> with
  the hook set after \<open>Set ''a'' 1\<close> at clock reading 0.
\<close>

definition full1 :: "int LRU" where
  "full1 = \<lparr>TTL = 0, OnRemove = True,
            shards = [\<lparr>lst = [0], table = [''a'' \<mapsto> 0]\<rparr>],
            shardSize = 1, eps = 1,
            store = blank(0 := \<lparr>Key = ''a'', Value = 1, Expiration = None\<rparr>),
            fresh = 1, hooked = []\<rparr>"

definition timedfull1 :: "int LRU" where
  "timedfull1 = \<lparr>TTL = 10, OnRemove = True,
            shards = [\<lparr>lst = [0], table = [''a'' \<mapsto> 0]\<rparr>],
            shardSize = 1, eps = 1,
            store = blank(0 := \<lparr>Key = ''a'', Value = 1, Expiration = Some 10\<rparr>),
            fresh = 1, hooked = []\<rparr>"

text \<open>The state of \<open>timed1\<close> after \<open>SetWithTTL ''key1'' 2 NoExpiration\<close>.\<close>

definition nodeadline1 :: "int LRU" where
  "nodeadline1 = \<lparr>TTL = 10, OnRemove = False,
            shards = [\<lparr>lst = [0], table = [''key1'' \<mapsto> 0]\<rparr>],
            shardSize = 1, eps = 1,
            store = blank(0 := \<lparr>Key = ''key1'', Value = 2, Expiration = None\<rparr>),
            fresh = 1, hooked = []\<rparr>"

text \<open>The state of \<open>plain1\<close> after \<open>SetWithTTL ''a'' 1 50\<close> at clock reading 0.\<close>

definition deadline1 :: "int LRU" where
  "deadline1 = \<lparr>TTL = 0, OnRemove = False,
            shards = [\<lparr>lst = [0], table = [''a'' \<mapsto> 0]\<rparr>],
            shardSize = 1, eps = 1,
            store = blank(0 := \<lparr>Key = ''a'', Value = 1, Expiration = Some 50\<rparr>),
            fresh = 1, hooked = []\<rparr>"

subsection \<open>Runs of operations\<close>

text \<open>
  The operations of the cache as values. A run executes a list of operations, each at
  its clock reading, and stops at the first panic; the results the operations return
  besides the state are dropped.
\<close>

datatype 'v op =
    OpSet string 'v
  | OpSetWithTTL string 'v int
  | OpGet string
  | OpGetEntry string
  | OpUpdate string "'v Entry \<Rightarrow> 'v Entry"
  | OpRemove string
  | OpFlush
  | OpLoad "'v decoded list"

fun apply_op :: "'v LRU \<Rightarrow> 'v op \<times> time \<Rightarrow> failure + 'v LRU" where
  "apply_op c (OpSet k v, t) = Set c k v t"
| "apply_op c (OpSetWithTTL k v ttl, t) = SetWithTTL c k v ttl t"
| "apply_op c (OpGet k, t) = map_sum id snd (Get c k t)"
| "apply_op c (OpGetEntry k, t) = map_sum id snd (GetEntry c k t)"
| "apply_op c (OpUpdate k cb, t) = map_sum id snd (Update c k cb t)"
| "apply_op c (OpRemove k, t) = Remove c k"
| "apply_op c (OpFlush, t) = Flush c"
| "apply_op c (OpLoad recs, t) = map_sum id snd (Load c recs)"

fun run :: "'v LRU \<Rightarrow> ('v op \<times> time) list \<Rightarrow> failure + 'v LRU" where
  "run c [] = Inr c"
| "run c (x # xs) = (case apply_op c x of Inl e \<Rightarrow> Inl e | Inr c' \<Rightarrow> run c' xs)"

text \<open>The key is in the index of the shard it routes to.\<close>

definition indexed :: "'v LRU \<Rightarrow> string \<Rightarrow> bool" where
  "indexed c k = (case getShard c k of Inl _ \<Rightarrow> False | Inr i \<Rightarrow> table (shards c ! i) k \<noteq> None)"

text \<open>The operations that assign to the entry of a key: \<open>Set\<close>, \<open>SetWithTTL\<close> and \<open>Update\<close>.\<close>

fun writes :: "string \<Rightarrow> 'v op \<Rightarrow> bool" where
  "writes k (OpSet k' v) = (k' = k)"
| "writes k (OpSetWithTTL k' v ttl) = (k' = k)"
| "writes k (OpUpdate k' cb) = (k' = k)"
| "writes k (OpGet k') = False"
| "writes k (OpGetEntry k') = False"
| "writes k (OpRemove k') = False"
| "writes k OpFlush = False"
| "writes k (OpLoad recs) = False"

text \<open>The callback of an \<open>Update\<close> leaves the key of the entry as it is.\<close>

fun tame :: "'v op \<Rightarrow> bool" where
  "tame (OpUpdate k cb) = (\<forall>e. Key (cb e) = Key e)"
| "tame (OpSet k v) = True"
| "tame (OpSetWithTTL k v ttl) = True"
| "tame (OpGet k) = True"
| "tame (OpGetEntry k) = True"
| "tame (OpRemove k) = True"
| "tame OpFlush = True"
| "tame (OpLoad recs) = True"

text \<open>
  The key is in the index after every step of the run: no step evicts it, removes it or
  flushes it.
\<close>

fun kept :: "string \<Rightarrow> 'v LRU \<Rightarrow> ('v op \<times> time) list \<Rightarrow> bool" where
  "kept k c [] = True"
| "kept k c (x # xs) =
     (case apply_op c x of Inl e \<Rightarrow> True | Inr c' \<Rightarrow> indexed c' k \<and> kept k c' xs)"

subsection \<open>The order of use\<close>

text \<open>The keys of the entries of shard \<open>i\<close>, in the order of its list.\<close>

definition key_list :: "'v LRU \<Rightarrow> nat \<Rightarrow> string list" where
  "key_list c i = map (\<lambda>a. Key (store c a)) (lst (shards c ! i))"

text \<open>A lookup of the key at the clock reading finds a live entry in shard \<open>i\<close>.\<close>

definition found :: "'v LRU \<Rightarrow> nat \<Rightarrow> string \<Rightarrow> time \<Rightarrow> bool" where
  "found c i k now =
     (getShard c k = Inr i \<and>
      (case table (shards c ! i) k of None \<Rightarrow> False | Some a \<Rightarrow> live c a now))"

text \<open>
  The keys \<open>Load\<close> inserts into shard \<open>i\<close>, in the order of the stream: those of the
  records that route to the shard and find their key absent.
\<close>

fun Load_uses :: "'v LRU \<Rightarrow> nat \<Rightarrow> 'v decoded list \<Rightarrow> string list" where
  "Load_uses c i [] = []"
| "Load_uses c i (DecodeError err # rest) = []"
| "Load_uses c i (Record entry # rest) =
     (case getShard c (Key entry) of
        Inl e \<Rightarrow> []
      | Inr j \<Rightarrow>
          (let el = fresh c;
               c1 = c\<lparr>fresh := Suc el, store := (store c)(el := entry)\<rparr>
           in (if j = i \<and> table (shards c ! j) (Key entry) = None then [Key entry] else []) @
              Load_uses (c1\<lparr>shards := (shards c1)[j := lruShard_putIfAbsent (store c1) (shards c1 ! j) el]\<rparr>)
                        i rest))"

text \<open>
  The keys an operation uses in shard \<open>i\<close>: the key a \<open>Set\<close> writes, the key a lookup
  finds, the keys \<open>Load\<close> inserts. \<open>Remove\<close> and \<open>Flush\<close> use none.
\<close>

fun used_by :: "'v LRU \<Rightarrow> nat \<Rightarrow> 'v op \<times> time \<Rightarrow> string list" where
  "used_by c i (OpSet k v, t) = (if getShard c k = Inr i then [k] else [])"
| "used_by c i (OpSetWithTTL k v ttl, t) = (if getShard c k = Inr i then [k] else [])"
| "used_by c i (OpGet k, t) = (if found c i k t then [k] else [])"
| "used_by c i (OpGetEntry k, t) = (if found c i k t then [k] else [])"
| "used_by c i (OpUpdate k cb, t) = (if found c i k t then [k] else [])"
| "used_by c i (OpRemove k, t) = []"
| "used_by c i (OpFlush, t) = []"
| "used_by c i (OpLoad recs, t) = Load_uses c i recs"

text \<open>The keys a run uses in shard \<open>i\<close>, in the order of time.\<close>

fun uses :: "'v LRU \<Rightarrow> nat \<Rightarrow> ('v op \<times> time) list \<Rightarrow> string list" where
  "uses c i [] = []"
| "uses c i (x # xs) =
     used_by c i x @ (case apply_op c x of Inl e \<Rightarrow> [] | Inr c' \<Rightarrow> uses c' i xs)"

text \<open>
  The keys \<open>ks\<close> are in the order of their last use in the history \<open>U\<close>, the most
  recently used first: \<open>remdups U\<close> keeps the last occurrence of each key, so it lists
  the keys by the time of their last use, and \<open>ks\<close> is what is left of its reverse when
  the keys no longer held are dropped.
\<close>

definition by_last_use :: "string list \<Rightarrow> string list \<Rightarrow> bool" where
  "by_last_use U ks = (distinct ks \<and> ks = filter (\<lambda>k. k \<in> set ks) (rev (remdups U)))"

text \<open>
  The least recently used of the keys \<open>ks\<close> in the history \<open>U\<close>: the first key, in the
  order of last use, that is among \<open>ks\<close>.
\<close>

definition least_recently_used :: "string list \<Rightarrow> string list \<Rightarrow> string option" where
  "least_recently_used U ks = find (\<lambda>k. k \<in> set ks) (remdups U)"

text \<open>
  The two states \<open>getEntry\<close> and \<open>SetWithTTL\<close> build: after a hit, with the deadline
  assigned and the element offered; after a miss, with the new entry allocated and added.
\<close>

definition touched :: "'v LRU \<Rightarrow> nat \<Rightarrow> addr \<Rightarrow> time option \<Rightarrow> 'v LRU" where
  "touched c i el exp =
     c\<lparr>store := (store c)(el := (store c el)\<lparr>Expiration := exp\<rparr>),
       shards := (shards c)[i := lruShard_offer (shards c ! i) el]\<rparr>"

definition inserted :: "'v LRU \<Rightarrow> nat \<Rightarrow> 'v Entry \<Rightarrow> 'v LRU" where
  "inserted c i e =
     c\<lparr>fresh := Suc (fresh c), store := (store c)(fresh c := e),
       shards := (shards c)[i := lruShard_add ((store c)(fresh c := e)) (shards c ! i) (fresh c)]\<rparr>"

section \<open>Properties\<close>

subsection \<open>Frame lemmas\<close>

lemma getShard_bound: "getShard c k = Inr i \<Longrightarrow> i < length (shards c)"
  by (auto simp: getShard_def Let_def split: if_splits)

lemma getShard_cong:
  "shardSize c' = shardSize c \<Longrightarrow> length (shards c') = length (shards c) \<Longrightarrow> getShard c' k = getShard c k"
  by (simp add: getShard_def Let_def)

lemma remove_shardSize [simp]: "shardSize (remove c i el) = shardSize c"
  by (simp add: remove_def Let_def)

lemma remove_length [simp]: "length (shards (remove c i el)) = length (shards c)"
  by (simp add: remove_def Let_def)

lemma remove_TTL [simp]: "TTL (remove c i el) = TTL c"
  by (simp add: remove_def Let_def)

lemma remove_eps [simp]: "eps (remove c i el) = eps c"
  by (simp add: remove_def Let_def)

lemma remove_OnRemove [simp]: "OnRemove (remove c i el) = OnRemove c"
  by (simp add: remove_def Let_def)

lemma remove_fresh [simp]: "fresh (remove c i el) = fresh c"
  by (simp add: remove_def Let_def)

lemma getEntry_frame:
  assumes "getEntry c i key now exp = Inr (r, c')"
  shows "shardSize c' = shardSize c \<and> length (shards c') = length (shards c) \<and> TTL c' = TTL c
         \<and> eps c' = eps c \<and> OnRemove c' = OnRemove c \<and> fresh c' = fresh c"
  using assms
  by (auto simp: getEntry_def Let_def split: option.splits sum.splits bool.splits if_splits)

lemma SetWithTTL_frame:
  assumes "SetWithTTL c key v ttl t = Inr c'"
  shows "shardSize c' = shardSize c \<and> length (shards c') = length (shards c) \<and> TTL c' = TTL c
         \<and> eps c' = eps c \<and> OnRemove c' = OnRemove c"
proof -
  obtain i where i: "getShard c key = Inr i" using assms
    by (cases "getShard c key") (auto simp: SetWithTTL_def genExp_def)
  obtain r c1 where g: "getEntry c i key t (snd (genExp t ttl)) = Inr (r, c1)" using assms i
    by (cases "getEntry c i key t (snd (genExp t ttl))") (auto simp: SetWithTTL_def genExp_def)
  note f = getEntry_frame [OF g]
  show ?thesis
  proof (cases r)
    case None
    with assms i g f show ?thesis
      by (auto simp: SetWithTTL_def genExp_def Let_def split: if_splits option.splits)
  next
    case (Some el)
    with assms i g f show ?thesis
      by (auto simp: SetWithTTL_def genExp_def Let_def)
  qed
qed


lemma getEntry_absent:
  "table (shards c ! i) k = None \<Longrightarrow> getEntry c i k now exp = Inr (None, c)"
  by (simp add: getEntry_def lruShard_get_def)

lemma getEntry_hit_NoExpiration:
  "TTL c = NoExpiration \<Longrightarrow> table (shards c ! i) k = Some a \<Longrightarrow>
   getEntry c i k now exp =
     Inr (Some a, c\<lparr>store := (store c)(a := (store c a)\<lparr>Expiration := exp\<rparr>),
                    shards := (shards c)[i := lruShard_offer (shards c ! i) a]\<rparr>)"
  by (simp add: getEntry_def lruShard_get_def Let_def)

lemma table_offer [simp]: "table (lruShard_offer s a) = table s"
  by (simp add: lruShard_offer_def)

lemma table_add [simp]: "table (lruShard_add st s a) = (table s)(Key (st a) \<mapsto> a)"
  by (simp add: lruShard_add_def)

lemma lst_add [simp]: "lst (lruShard_add st s a) = a # lst s"
  by (simp add: lruShard_add_def list_PushFrontElement_def)

lemma len_add [simp]: "lruShard_len (lruShard_add st s a) = lruShard_len s + 1"
  by (simp add: lruShard_len_def list_Len_def)

subsection \<open>The example states\<close>

lemma NewLRU_plain1: "NewLRU blank 1 1 0 = Inr plain1"
  by (simp add: NewLRU_def maxSliceLen_def plain1_def newShard_def list_New_def)

lemma NewLRU_timed1: "NewLRU blank 1 1 10 = Inr timed1"
  by (simp add: NewLRU_def maxSliceLen_def timed1_def newShard_def list_New_def)

lemma getShard_single: "shardSize c = 1 \<Longrightarrow> shards c \<noteq> [] \<Longrightarrow> getShard c k = Inr 0"
  by (simp add: getShard_def)

subsection \<open>Eviction\<close>

lemma removeAll_last_distinct:
  assumes "distinct xs" and "xs \<noteq> []"
  shows "removeAll (last xs) xs = butlast xs"
proof -
  from assms(2) have split: "xs = butlast xs @ [last xs]" by simp
  with assms(1) have "distinct (butlast xs @ [last xs])" by simp
  then have "last xs \<notin> set (butlast xs)" by simp
  then have "removeAll (last xs) (butlast xs @ [last xs]) = butlast xs" by simp
  with split show ?thesis by simp
qed

lemma shard_inv_elem:
  assumes "shard_inv c i" and "a \<in> set (lst (shards c ! i))"
  shows "a < fresh c" and "table (shards c ! i) (Key (store c a)) = Some a"
    and "getShard c (Key (store c a)) = Inr i"
  using assms by (auto simp: shard_inv_def list_all_iff)

lemma SetWithTTL_evicts:
  fixes c :: "'v LRU"
  defines "st3 \<equiv> \<lambda>k v t ttl. (store c)(fresh c := \<lparr>Key = k, Value = v, Expiration = snd (genExp t ttl)\<rparr>)"
  assumes sh: "getShard c k = Inr i"
    and absent: "table (shards c ! i) k = None"
    and full: "lruShard_len (shards c ! i) = eps c"
    and inv: "shard_inv c i"
  shows "\<exists>c1. SetWithTTL c k v ttl t = Inr c1 \<and>
     lst (shards c1 ! i) = butlast (fresh c # lst (shards c ! i)) \<and>
     table (shards c1 ! i) =
       (table (shards c ! i))
         (k \<mapsto> fresh c, Key (st3 k v t ttl (last (fresh c # lst (shards c ! i)))) := None) \<and>
     hooked c1 =
       hooked c @ (if OnRemove c then [st3 k v t ttl (last (fresh c # lst (shards c ! i)))] else []) \<and>
     shardSize c1 = shardSize c \<and> length (shards c1) = length (shards c) \<and> TTL c1 = TTL c"
proof -
  let ?s = "shards c ! i"
  have i: "i < length (shards c)" using sh by (rule getShard_bound)
  show ?thesis
  proof (cases "lst ?s = []")
    case True
    with sh absent full i show ?thesis
      by (simp add: st3_def SetWithTTL_def genExp_def getEntry_absent Let_def lruShard_oldest_def
          list_Back_def remove_def lruShard_remove_def list_Remove_def lruShard_len_def list_Len_def
          lruShard_add_def list_PushFrontElement_def)
  next
    case False
    let ?vic = "last (lst ?s)"
    have vin: "?vic \<in> set (lst ?s)" using False by simp
    have vne: "?vic \<noteq> fresh c" using shard_inv_elem(1) [OF inv vin] by simp
    have dist: "distinct (lst ?s)" using inv by (simp add: shard_inv_def)
    have rm: "removeAll ?vic (lst ?s) = butlast (lst ?s)"
      using dist False by (rule removeAll_last_distinct)
    show ?thesis
      using sh absent full False i vne rm
      by (simp add: st3_def SetWithTTL_def genExp_def getEntry_absent Let_def lruShard_oldest_def
          list_Back_def remove_def lruShard_remove_def list_Remove_def lruShard_len_def list_Len_def
          lruShard_add_def list_PushFrontElement_def)
  qed
qed

lemma Get_absent:
  "getShard c k = Inr i \<Longrightarrow> table (shards c ! i) k = None \<Longrightarrow> Get c k t = Inr (None, c)"
  by (simp add: Get_def genExp_def getEntry_absent)

text \<open>
  \<open>Set\<close> of a key a full shard does not index evicts the element at the back of the
  list of the shard, and that element only.
\<close>

lemma Set_evicts_back:
  assumes sh: "getShard c k = Inr i"
    and absent: "table (shards c ! i) k = None"
    and full: "lruShard_len (shards c ! i) = eps c"
    and inv: "shard_inv c i"
    and new: "new = \<lparr>Key = k, Value = v, Expiration = snd (genExp t (TTL c))\<rparr>"
  shows "\<exists>c1. Set c k v t = Inr c1 \<and>
     lst (shards c1 ! i) = butlast (fresh c # lst (shards c ! i)) \<and>
     hooked c1 = hooked c @ (if OnRemove c then [lru_entry c i new] else []) \<and>
     table (shards c1 ! i) =
       (table (shards c ! i))(k \<mapsto> fresh c, Key (lru_entry c i new) := None) \<and>
     Get c1 (Key (lru_entry c i new)) t' = Inr (None, c1) \<and>
     (lst (shards c ! i) \<noteq> [] \<longrightarrow> table (shards c1 ! i) k = Some (fresh c))"
proof -
  let ?s = "shards c ! i"
  let ?vic = "lru_entry c i new"
  have old: "last (lst ?s) \<in> set (lst ?s) \<and> last (lst ?s) \<noteq> fresh c" if "lst ?s \<noteq> []"
  proof -
    from that have vin: "last (lst ?s) \<in> set (lst ?s)" by simp
    with shard_inv_elem(1) [OF inv vin] show ?thesis by simp
  qed
  have vdef: "((store c)(fresh c := \<lparr>Key = k, Value = v, Expiration = snd (genExp t (TTL c))\<rparr>))
                (last (fresh c # lst ?s)) = ?vic"
    using old new by (simp add: lru_entry_def)
  from SetWithTTL_evicts [OF sh absent full inv, of v "TTL c" t]
  obtain c1 where set: "Set c k v t = Inr c1"
    and l1: "lst (shards c1 ! i) = butlast (fresh c # lst ?s)"
    and t1: "table (shards c1 ! i) = (table ?s)(k \<mapsto> fresh c, Key ?vic := None)"
    and h1: "hooked c1 = hooked c @ (if OnRemove c then [?vic] else [])"
    and fr: "shardSize c1 = shardSize c" "length (shards c1) = length (shards c)"
    unfolding Set_def vdef by blast
  have gone: "table (shards c1 ! i) (Key ?vic) = None" using t1 by simp
  have route: "getShard c (Key ?vic) = Inr i"
  proof (cases "lst ?s = []")
    case True
    then show ?thesis using sh new by (simp add: lru_entry_def)
  next
    case False
    with old have "last (lst ?s) \<in> set (lst ?s)" by simp
    from shard_inv_elem(3) [OF inv this] False show ?thesis by (simp add: lru_entry_def)
  qed
  then have route1: "getShard c1 (Key ?vic) = Inr i"
    using getShard_cong [of c1 c "Key ?vic"] fr by simp
  have get: "Get c1 (Key ?vic) t' = Inr (None, c1)"
    using route1 gone by (rule Get_absent)
  have kept: "table (shards c1 ! i) k = Some (fresh c)" if ne: "lst ?s \<noteq> []"
  proof -
    from ne old have vin: "last (lst ?s) \<in> set (lst ?s)" by simp
    have "table ?s (Key (store c (last (lst ?s)))) = Some (last (lst ?s))"
      using shard_inv_elem(2) [OF inv vin] .
    with absent have "Key (store c (last (lst ?s))) \<noteq> k" by auto
    with t1 ne show ?thesis by (simp add: lru_entry_def)
  qed
  from set l1 h1 t1 get kept show ?thesis by blast
qed

lemma Set_plain1_full1: "Set (plain1\<lparr>OnRemove := True\<rparr>) ''a'' 1 0 = Inr full1"
  by (simp add: plain1_def full1_def Set_def SetWithTTL_def genExp_def getEntry_absent getShard_single
      NoExpiration_def lruShard_len_def list_Len_def lruShard_add_def list_PushFrontElement_def)

lemma Set_timed1_timedfull1: "Set (timed1\<lparr>OnRemove := True\<rparr>) ''a'' 1 0 = Inr timedfull1"
  by (simp add: timed1_def timedfull1_def Set_def SetWithTTL_def genExp_def getEntry_absent getShard_single
      NoExpiration_def lruShard_len_def list_Len_def lruShard_add_def list_PushFrontElement_def)

subsection \<open>Expiration\<close>

lemma getEntry_expired:
  assumes "TTL c \<noteq> NoExpiration" and "table (shards c ! i) k = Some a"
    and "Expiration (store c a) = Some d" and "d < now"
  shows "getEntry c i k now exp = Inr (None, remove c i a)"
  using assms by (simp add: getEntry_def lruShard_get_def Before_def Let_def)


lemma getEntry_nil:
  assumes "TTL c \<noteq> NoExpiration" and "table (shards c ! i) k = Some a"
    and "Expiration (store c a) = None"
  shows "getEntry c i k now exp = Inl NilDereference"
  using assms by (simp add: getEntry_def lruShard_get_def Before_def Let_def)

text \<open>
  C3. The cache has a default TTL, the key is indexed in its shard under an entry that
  carries it, and the deadline of the entry is strictly before the clock reading. Then
  \<open>Get\<close> returns not found; in the state it returns the key is out of the index of the
  shard, the element is out of its list, and the hook, when set, has been called once,
  with that entry.
\<close>

theorem Get_expired:
  assumes ttl: "TTL c \<noteq> NoExpiration"
    and sh: "getShard c k = Inr i"
    and tab: "table (shards c ! i) k = Some a"
    and key: "Key (store c a) = k"
    and dl: "Expiration (store c a) = Some d"
    and late: "d < now"
  shows "\<exists>c1. Get c k now = Inr (None, c1) \<and>
     table (shards c1 ! i) = (table (shards c ! i))(k := None) \<and>
     lst (shards c1 ! i) = removeAll a (lst (shards c ! i)) \<and>
     a \<notin> set (lst (shards c1 ! i)) \<and>
     hooked c1 = hooked c @ (if OnRemove c then [store c a] else [])"
proof -
  have i: "i < length (shards c)" using sh by (rule getShard_bound)
  have get: "Get c k now = Inr (None, remove c i a)"
    using sh by (simp add: Get_def genExp_def getEntry_expired [OF ttl tab dl late])
  have "table (shards (remove c i a) ! i) = (table (shards c ! i))(k := None)"
    and "lst (shards (remove c i a) ! i) = removeAll a (lst (shards c ! i))"
    and "hooked (remove c i a) = hooked c @ (if OnRemove c then [store c a] else [])"
    using i key by (simp_all add: remove_def Let_def lruShard_remove_def list_Remove_def)
  with get show ?thesis by simp
qed

theorem Get_expired_witness:
  "TTL timedfull1 \<noteq> NoExpiration \<and> getShard timedfull1 ''a'' = Inr 0 \<and>
   table (shards timedfull1 ! 0) ''a'' = Some 0 \<and> Key (store timedfull1 0) = ''a'' \<and>
   Expiration (store timedfull1 0) = Some 10 \<and> (10::int) < 11 \<and>
   (\<exists>c1. Get timedfull1 ''a'' 11 = Inr (None, c1) \<and>
      table (shards c1 ! 0) ''a'' = None \<and> lst (shards c1 ! 0) = [] \<and>
      hooked c1 = [\<lparr>Key = ''a'', Value = 1, Expiration = Some 10\<rparr>])"
proof -
  have pre: "TTL timedfull1 \<noteq> NoExpiration" "getShard timedfull1 ''a'' = Inr 0"
    "table (shards timedfull1 ! 0) ''a'' = Some 0" "Key (store timedfull1 0) = ''a''"
    "Expiration (store timedfull1 0) = Some 10" "(10::int) < 11"
    by (simp_all add: timedfull1_def getShard_single NoExpiration_def)
  from Get_expired [OF pre] pre show ?thesis
    by (auto simp: timedfull1_def)
qed

subsection \<open>Sliding expiration\<close>

lemma set_MoveToFront: "set (list_MoveToFront l a) = set l"
  by (auto simp: list_MoveToFront_def)



subsection \<open>Flush and Len\<close>

lemma Len_loop_sum:
  "\<forall>i\<in>set is. i < length ss \<Longrightarrow>
   Len_loop ss is acc = Inr (acc + sum_list (map (\<lambda>i. lruShard_len (ss ! i)) is))"
  by (induction "is" arbitrary: acc) simp_all

lemma map_nth_upt: "map (\<lambda>i. f (xs ! i)) [0..<length xs] = map f xs"
proof -
  have "map (\<lambda>i. f (xs ! i)) [0..<length xs] = map f (map ((!) xs) [0..<length xs])"
    by simp
  then show ?thesis by (simp only: map_nth)
qed

lemma Len_total:
  assumes "shardSize c = int (length (shards c))"
  shows "Len c = Inr (sum_list (map lruShard_len (shards c)))"
proof -
  have "Len c = Inr (0 + sum_list (map (\<lambda>i. lruShard_len (shards c ! i)) [0..<length (shards c)]))"
    unfolding Len_def using assms by (simp add: Len_loop_sum)
  then show ?thesis by (simp add: map_nth_upt)
qed

lemma sum_len_concat: "sum_list (map lruShard_len ss) = int (length (concat (map lst ss)))"
  by (induction ss) (simp_all add: lruShard_len_def list_Len_def)

lemma Flush_notify_hooked:
  "Flush_notify c els = (if OnRemove c then c\<lparr>hooked := hooked c @ map (store c) els\<rparr> else c)"
  by (induction els arbitrary: c) simp_all

lemma Flush_notify_frame [simp]:
  "shards (Flush_notify c els) = shards c" "store (Flush_notify c els) = store c"
  "OnRemove (Flush_notify c els) = OnRemove c" "shardSize (Flush_notify c els) = shardSize c"
  by (simp_all add: Flush_notify_hooked)

lemma Flush_loop_spec:
  assumes "\<forall>i\<in>set is. i < length (shards c)" and "distinct is"
  shows "\<exists>c1. Flush_loop c is = Inr c1 \<and> length (shards c1) = length (shards c) \<and>
     shardSize c1 = shardSize c \<and>
     (\<forall>j<length (shards c). lst (shards c1 ! j) = (if j \<in> set is then [] else lst (shards c ! j))) \<and>
     hooked c1 = hooked c @
       (if OnRemove c then concat (map (\<lambda>i. map (store c) (lst (shards c ! i))) is) else [])"
  using assms
proof (induction "is" arbitrary: c)
  case Nil
  then show ?case by simp
next
  case (Cons i "is")
  let ?c1 = "c\<lparr>shards := (shards c)[i := (shards c ! i)\<lparr>lst := list_New, table := Map.empty\<rparr>]\<rparr>"
  let ?c2 = "Flush_notify ?c1 (lst (shards c ! i))"
  from Cons.prems have i: "i < length (shards c)" and rest: "\<forall>j\<in>set is. j < length (shards c)"
    and ni: "i \<notin> set is" and d: "distinct is" by simp_all
  have step: "Flush_loop c (i # is) = Flush_loop ?c2 is" using i by (simp add: Let_def)
  have sh2: "shards ?c2 = (shards c)[i := (shards c ! i)\<lparr>lst := list_New, table := Map.empty\<rparr>]"
    and st2: "store ?c2 = store c" and on2: "OnRemove ?c2 = OnRemove c"
    and ss2: "shardSize ?c2 = shardSize c"
    and h2: "hooked ?c2 = hooked c @ (if OnRemove c then map (store c) (lst (shards c ! i)) else [])"
    by (simp_all add: Flush_notify_hooked)
  have len2: "length (shards ?c2) = length (shards c)" by (simp add: sh2)
  from rest have rest2: "\<forall>j\<in>set is. j < length (shards ?c2)" by (simp add: len2)
  from Cons.IH [OF rest2 d] obtain c3 where
    f3: "Flush_loop ?c2 is = Inr c3" and len3: "length (shards c3) = length (shards ?c2)"
    and ss3: "shardSize c3 = shardSize ?c2"
    and l3: "\<forall>j<length (shards ?c2). lst (shards c3 ! j) = (if j \<in> set is then [] else lst (shards ?c2 ! j))"
    and h3: "hooked c3 = hooked ?c2 @
       (if OnRemove ?c2 then concat (map (\<lambda>i. map (store ?c2) (lst (shards ?c2 ! i))) is) else [])"
    by blast
  have same: "map (\<lambda>j. map (store ?c2) (lst (shards ?c2 ! j))) is
            = map (\<lambda>j. map (store c) (lst (shards c ! j))) is"
  proof (rule map_cong [OF refl])
    fix j assume "j \<in> set is"
    with ni have "j \<noteq> i" by auto
    then show "map (store ?c2) (lst (shards ?c2 ! j)) = map (store c) (lst (shards c ! j))"
      by simp
  qed
  have lst3: "\<forall>j<length (shards c). lst (shards c3 ! j) = (if j \<in> set (i # is) then [] else lst (shards c ! j))"
  proof (intro allI impI)
    fix j assume j: "j < length (shards c)"
    with l3 len2 have "lst (shards c3 ! j) = (if j \<in> set is then [] else lst (shards ?c2 ! j))" by simp
    then show "lst (shards c3 ! j) = (if j \<in> set (i # is) then [] else lst (shards c ! j))"
      using j by (cases "j = i") (simp_all add: list_New_def)
  qed
  have hk: "hooked c3 = hooked c @
       (if OnRemove c then concat (map (\<lambda>i. map (store c) (lst (shards c ! i))) (i # is)) else [])"
  proof -
    have "hooked c3 = hooked ?c2 @
       (if OnRemove c then concat (map (\<lambda>j. map (store c) (lst (shards c ! j))) is) else [])"
      using h3 unfolding same on2 .
    then show ?thesis unfolding h2 by simp
  qed
  from step f3 len3 len2 ss3 ss2 lst3 hk show ?case by simp
qed

text \<open>
  C5. A cache has as many shards as \<open>shardSize\<close> says. \<open>Len\<close> returns the number of
  elements of the lists of its shards. \<open>Flush\<close> returns, and in the state it returns
  \<open>Len\<close> is 0; the hook, when set, has been called with the entry of each element of
  those lists, once each, shard by shard and front to back, so as many times as \<open>Len\<close>
  counted before; when no hook is set nothing is called.
\<close>

theorem Flush_empties:
  assumes shape: "shardSize c = int (length (shards c))"
  shows "\<exists>c1. Len c = Inr (int (length (concat (map lst (shards c))))) \<and>
     Flush c = Inr c1 \<and> Len c1 = Inr 0 \<and>
     hooked c1 = hooked c @ (if OnRemove c then map (store c) (concat (map lst (shards c))) else []) \<and>
     length (hooked c1) =
       length (hooked c) + (if OnRemove c then length (concat (map lst (shards c))) else 0)"
proof -
  let ?n = "length (shards c)"
  have before: "Len c = Inr (int (length (concat (map lst (shards c)))))"
    using Len_total [OF shape] by (simp add: sum_len_concat)
  have idx: "\<forall>i\<in>set [0..<?n]. i < length (shards c)" and d: "distinct [0..<?n]" by simp_all
  from Flush_loop_spec [OF idx d] obtain c1 where
    f: "Flush_loop c [0..<?n] = Inr c1" and len1: "length (shards c1) = ?n"
    and ss1: "shardSize c1 = shardSize c"
    and l1: "\<forall>j<?n. lst (shards c1 ! j) = (if j \<in> set [0..<?n] then [] else lst (shards c ! j))"
    and h1: "hooked c1 = hooked c @
       (if OnRemove c then concat (map (\<lambda>i. map (store c) (lst (shards c ! i))) [0..<?n]) else [])"
    by blast
  have fl: "Flush c = Inr c1" using f shape by (simp add: Flush_def)
  have "\<forall>s\<in>set (shards c1). lst s = []"
    using l1 len1 by (auto simp: in_set_conv_nth)
  then have "concat (map lst (shards c1)) = []" by simp
  moreover have "shardSize c1 = int (length (shards c1))" using ss1 len1 shape by simp
  ultimately have after: "Len c1 = Inr 0"
    using Len_total [of c1] by (simp add: sum_len_concat)
  have "concat (map (\<lambda>i. map (store c) (lst (shards c ! i))) [0..<?n])
        = concat (map (\<lambda>s. map (store c) (lst s)) (shards c))"
    by (simp only: map_nth_upt [of "\<lambda>s. map (store c) (lst s)" "shards c"])
  also have "\<dots> = map (store c) (concat (map lst (shards c)))"
    by (simp add: map_concat comp_def)
  finally have hk: "hooked c1 = hooked c @
      (if OnRemove c then map (store c) (concat (map lst (shards c))) else [])"
    using h1 by simp
  from before fl after hk show ?thesis by auto
qed

theorem Flush_empties_witness:
  "shardSize full1 = int (length (shards full1)) \<and>
   (\<exists>c1. Len full1 = Inr 1 \<and> Flush full1 = Inr c1 \<and> Len c1 = Inr 0 \<and>
      hooked c1 = [\<lparr>Key = ''a'', Value = 1, Expiration = None\<rparr>])"
proof -
  have pre: "shardSize full1 = int (length (shards full1))" by (simp add: full1_def)
  from Flush_empties [OF pre] pre show ?thesis
    by (auto simp: full1_def)
qed

subsection \<open>Load\<close>

lemma shaped_getShard:
  assumes "shaped c"
  shows "\<exists>i. getShard c k = Inr i"
proof -
  from assms have pos: "0 < shardSize c" and small: "shardSize c < 2 ^ 63"
    and len: "shardSize c = int (length (shards c))" unfolding shaped_def by blast+
  from pos small have m: "shardSize c mod 2 ^ 64 = shardSize c" by simp
  have "uint (Sum32 k) mod shardSize c < shardSize c" using pos by simp
  moreover have "0 \<le> uint (Sum32 k) mod shardSize c" using pos by simp
  ultimately have "nat (uint (Sum32 k) mod shardSize c) < length (shards c)" using len by linarith
  then show ?thesis using pos m by (simp add: getShard_def Let_def)
qed

lemma table_putIfAbsent_keep:
  "table s k = Some a \<Longrightarrow> table (lruShard_putIfAbsent st s el) k = Some a"
  by (auto simp: lruShard_putIfAbsent_def split: option.splits)

lemma Load_keeps:
  assumes "shaped c" and "getShard c k = Inr i" and "table (shards c ! i) k = Some a"
    and "a < fresh c"
  shows "\<exists>err c1. Load c recs = Inr (err, c1) \<and> table (shards c1 ! i) k = Some a \<and>
           store c1 a = store c a"
  using assms
proof (induction recs arbitrary: c)
  case Nil
  then show ?case by simp
next
  case (Cons r recs)
  show ?case
  proof (cases r)
    case (DecodeError err)
    with Cons.prems show ?thesis by simp
  next
    case (Record entry)
    from shaped_getShard [OF Cons.prems(1)] obtain j where j: "getShard c (Key entry) = Inr j" ..
    let ?st = "(store c)(fresh c := entry)"
    let ?c2 = "c\<lparr>fresh := Suc (fresh c), store := ?st,
                  shards := (shards c)[j := lruShard_putIfAbsent ?st (shards c ! j) (fresh c)]\<rparr>"
    have step: "Load c (r # recs) = Load ?c2 recs" using Record j by (simp add: Let_def)
    have i: "i < length (shards c)" using Cons.prems(2) by (rule getShard_bound)
    have shp: "shaped ?c2" using Cons.prems(1) unfolding shaped_def by auto
    have sh2: "getShard ?c2 k = Inr i" using Cons.prems(2) getShard_cong [of ?c2 c k] by simp
    have tab2: "table (shards ?c2 ! i) k = Some a"
      using Cons.prems(3) i by (cases "j = i") (simp_all add: table_putIfAbsent_keep)
    have a2: "a < fresh ?c2" using Cons.prems(4) by simp
    from Cons.IH [OF shp sh2 tab2 a2] obtain err c1 where
      "Load ?c2 recs = Inr (err, c1)" "table (shards c1 ! i) k = Some a" "store c1 a = store ?c2 a"
      by blast
    moreover have "store ?c2 a = store c a" using Cons.prems(4) by simp
    ultimately show ?thesis using step by simp
  qed
qed

text \<open>
  C6. A cache has the shape \<open>NewLRU\<close> gives it, and a key is indexed in its shard under
  an allocated entry. Whatever the stream of records, \<open>Load\<close> returns, and in the state
  it returns the key is indexed under the same entry and the entry is unchanged: its key,
  its value and its deadline are those it had before \<open>Load\<close>.
\<close>

theorem Load_keeps_present:
  assumes "shaped c" and "getShard c k = Inr i" and "table (shards c ! i) k = Some a"
    and "a < fresh c"
  shows "\<exists>err c1. Load c recs = Inr (err, c1) \<and> table (shards c1 ! i) k = Some a \<and>
           Value (store c1 a) = Value (store c a) \<and>
           Expiration (store c1 a) = Expiration (store c a) \<and>
           Key (store c1 a) = Key (store c a)"
proof -
  from Load_keeps [OF assms, of recs] obtain err c1 where
    "Load c recs = Inr (err, c1)" "table (shards c1 ! i) k = Some a" "store c1 a = store c a"
    by blast
  then show ?thesis by simp
qed

theorem Load_keeps_present_witness:
  "shaped full1 \<and> getShard full1 ''a'' = Inr 0 \<and> table (shards full1 ! 0) ''a'' = Some 0 \<and>
   0 < fresh full1 \<and>
   (\<exists>c1. Load full1 [Record \<lparr>Key = ''a'', Value = 99, Expiration = Some 7\<rparr>,
                      Record \<lparr>Key = ''b'', Value = 5, Expiration = None\<rparr>] = Inr (None, c1) \<and>
      table (shards c1 ! 0) ''a'' = Some 0 \<and> Value (store c1 0) = 1 \<and>
      Expiration (store c1 0) = None \<and> table (shards c1 ! 0) ''b'' = Some 2)"
proof -
  have pre: "shaped full1" "getShard full1 ''a'' = Inr 0" "table (shards full1 ! 0) ''a'' = Some 0"
    "0 < fresh full1"
    by (simp_all add: full1_def getShard_single shaped_def)
  have run: "\<exists>c1. Load full1 [Record \<lparr>Key = ''a'', Value = 99, Expiration = Some 7\<rparr>,
                      Record \<lparr>Key = ''b'', Value = 5, Expiration = None\<rparr>] = Inr (None, c1) \<and>
      table (shards c1 ! 0) ''b'' = Some 2"
    by (simp add: full1_def getShard_single lruShard_putIfAbsent_def lruShard_add_def
        list_PushFrontElement_def Let_def)
  from Load_keeps_present [OF pre, of "[Record \<lparr>Key = ''a'', Value = 99, Expiration = Some 7\<rparr>,
                      Record \<lparr>Key = ''b'', Value = 5, Expiration = None\<rparr>]"] run pre
  show ?thesis
    by (auto simp: full1_def)
qed

subsection \<open>Entries without a deadline\<close>

lemma getEntry_cases:
  assumes "getEntry c i k now exp = Inr (r, c')"
  shows "(r = None \<and> (c' = c \<or> (\<exists>el. c' = remove c i el))) \<or>
         (\<exists>el. r = Some el \<and> table (shards c ! i) k = Some el \<and>
               c' = c\<lparr>store := (store c)(el := (store c el)\<lparr>Expiration := exp\<rparr>),
                       shards := (shards c)[i := lruShard_offer (shards c ! i) el]\<rparr>)"
  using assms
  by (auto simp: getEntry_def lruShard_get_def Let_def split: option.splits sum.splits bool.splits if_splits)

lemma SetWithTTL_NoExpiration_nil:
  assumes set: "SetWithTTL c k v NoExpiration t0 = Inr c1"
    and sh: "getShard c k = Inr i"
    and tab: "table (shards c1 ! i) k = Some a"
  shows "Expiration (store c1 a) = None"
proof -
  have i: "i < length (shards c)" using sh by (rule getShard_bound)
  obtain r c' where ge: "getEntry c i k t0 None = Inr (r, c')"
    using set sh by (cases "getEntry c i k t0 None") (auto simp: SetWithTTL_def genExp_def)
  from getEntry_frame [OF ge] have len': "length (shards c') = length (shards c)" by simp
  show ?thesis
  proof (cases r)
    case (Some el)
    with getEntry_cases [OF ge] have tel: "table (shards c ! i) k = Some el"
      and c': "c' = c\<lparr>store := (store c)(el := (store c el)\<lparr>Expiration := None\<rparr>),
                       shards := (shards c)[i := lruShard_offer (shards c ! i) el]\<rparr>"
      by auto
    from set sh ge Some have c1: "c1 = c'\<lparr>store := (store c')(el := (store c' el)\<lparr>Value := v\<rparr>)\<rparr>"
      by (simp add: SetWithTTL_def genExp_def)
    from tab c1 c' tel i have "a = el" by simp
    with c1 c' show ?thesis by simp
  next
    case None
    let ?el = "fresh c'"
    let ?st = "(store c')(?el := \<lparr>Key = k, Value = v, Expiration = None\<rparr>)"
    let ?c3 = "c'\<lparr>fresh := Suc ?el, store := ?st,
                  shards := (shards c')[i := lruShard_add ?st (shards c' ! i) ?el]\<rparr>"
    have i': "i < length (shards c')" using i len' by simp
    have t3: "table (shards ?c3 ! i) k = Some ?el" using i' by simp
    have e3: "Expiration (store ?c3 ?el) = None" by simp
    from set sh ge None have "c1 = ?c3 \<or> (\<exists>old. c1 = remove ?c3 i old)"
      by (auto simp: SetWithTTL_def genExp_def Let_def split: if_splits option.splits)
    then show ?thesis
    proof
      assume "c1 = ?c3"
      with tab t3 e3 show ?thesis by simp
    next
      assume "\<exists>old. c1 = remove ?c3 i old"
      then obtain old where c1: "c1 = remove ?c3 i old" ..
      have "table (shards c1 ! i) k = Some a \<longrightarrow> a = ?el"
        unfolding c1 using i' by (simp add: remove_def Let_def lruShard_remove_def split: if_splits)
      with tab have "a = ?el" by simp
      then show ?thesis unfolding c1 by (simp add: remove_def Let_def)
    qed
  qed
qed

text \<open>
  C8. The cache has a default TTL. \<open>SetWithTTL\<close> of a key with \<open>NoExpiration\<close> has
  returned and the key is indexed in the state it returned. Then each of \<open>Get\<close>,
  \<open>GetEntry\<close>, \<open>Update\<close> and \<open>Set\<close> of that key, at any clock reading, ends in the
  dereference of a nil pointer: the entry has no deadline and the expiration check
  reads it.
\<close>

theorem nil_deadline_panics:
  assumes ttl: "TTL c \<noteq> NoExpiration"
    and set: "SetWithTTL c k v NoExpiration t0 = Inr c1"
    and sh: "getShard c k = Inr i"
    and stored: "table (shards c1 ! i) k \<noteq> None"
  shows "Get c1 k t = Inl NilDereference \<and> GetEntry c1 k t = Inl NilDereference \<and>
         Update c1 k cb t = Inl NilDereference \<and> Set c1 k v' t = Inl NilDereference"
proof -
  from stored obtain a where tab: "table (shards c1 ! i) k = Some a" by auto
  have nil: "Expiration (store c1 a) = None"
    using set sh tab by (rule SetWithTTL_NoExpiration_nil)
  from SetWithTTL_frame [OF set] have fr: "shardSize c1 = shardSize c"
    "length (shards c1) = length (shards c)" "TTL c1 = TTL c" by simp_all
  have sh1: "getShard c1 k = Inr i" using sh getShard_cong [of c1 c k] fr by simp
  have ttl1: "TTL c1 \<noteq> NoExpiration" using ttl fr by simp
  have ge: "getEntry c1 i k t exp = Inl NilDereference" for exp
    by (rule getEntry_nil [OF ttl1 tab nil])
  show ?thesis
    using sh1 ge by (simp add: Get_def GetEntry_def Update_def Set_def SetWithTTL_def genExp_def)
qed

lemma SetWithTTL_timed1_nodeadline1: "SetWithTTL timed1 ''key1'' 2 NoExpiration 0 = Inr nodeadline1"
  by (simp add: timed1_def nodeadline1_def SetWithTTL_def genExp_def getEntry_absent getShard_single
      NoExpiration_def lruShard_len_def list_Len_def lruShard_add_def list_PushFrontElement_def)

theorem nil_deadline_panics_witness:
  "TTL timed1 \<noteq> NoExpiration \<and> SetWithTTL timed1 ''key1'' 2 NoExpiration 0 = Inr nodeadline1 \<and>
   getShard timed1 ''key1'' = Inr 0 \<and> table (shards nodeadline1 ! 0) ''key1'' = Some 0 \<and>
   Get nodeadline1 ''key1'' 100 = Inl NilDereference \<and>
   GetEntry nodeadline1 ''key1'' 100 = Inl NilDereference \<and>
   Update nodeadline1 ''key1'' (\<lambda>e. e\<lparr>Value := Value e + 1\<rparr>) 100 = Inl NilDereference \<and>
   Set nodeadline1 ''key1'' 3 100 = Inl NilDereference"
proof -
  have p1: "TTL timed1 \<noteq> NoExpiration" by (simp add: timed1_def NoExpiration_def)
  have p3: "getShard timed1 ''key1'' = Inr 0" by (simp add: timed1_def getShard_single)
  have p4: "table (shards nodeadline1 ! 0) ''key1'' \<noteq> None" by (simp add: nodeadline1_def)
  note pre = p1 SetWithTTL_timed1_nodeadline1 p3 p4
  have "table (shards nodeadline1 ! 0) ''key1'' = Some 0" by (simp add: nodeadline1_def)
  with nil_deadline_panics [OF pre, of 100 "\<lambda>e. e\<lparr>Value := Value e + 1\<rparr>" 3] pre(1-3)
  show ?thesis by simp
qed

subsection \<open>A cache without a default TTL\<close>

text \<open>
  C10. The cache has no default TTL and the key is indexed under the entry at \<open>a\<close>.
  Then \<open>Get\<close>, \<open>GetEntry\<close>, \<open>Update\<close> and \<open>Set\<close> of the key all find the entry,
  whatever its deadline and the clock reading, and assign \<open>None\<close> to its deadline:
  after \<open>Get\<close> and \<open>GetEntry\<close> the entry is the old one without deadline, \<open>Update\<close>
  applies the callback to that entry, and \<open>Set\<close> overwrites its value. None of them
  takes the key out of the index or calls the hook.
\<close>

theorem NoExpiration_lookup_clears_deadline:
  assumes ttl: "TTL c = NoExpiration"
    and sh: "getShard c k = Inr i"
    and tab: "table (shards c ! i) k = Some a"
  shows "(\<exists>c1. Get c k t = Inr (Some (Value (store c a)), c1) \<and>
            store c1 a = (store c a)\<lparr>Expiration := None\<rparr> \<and>
            table (shards c1 ! i) = table (shards c ! i) \<and> hooked c1 = hooked c) \<and>
         (\<exists>c1. GetEntry c k t = Inr (Some a, c1) \<and>
            store c1 a = (store c a)\<lparr>Expiration := None\<rparr> \<and>
            table (shards c1 ! i) = table (shards c ! i) \<and> hooked c1 = hooked c) \<and>
         (\<exists>c1. Update c k cb t = Inr (Some a, c1) \<and>
            store c1 a = cb ((store c a)\<lparr>Expiration := None\<rparr>) \<and>
            table (shards c1 ! i) = table (shards c ! i) \<and> hooked c1 = hooked c) \<and>
         (\<exists>c1. Set c k v t = Inr c1 \<and>
            store c1 a = (store c a)\<lparr>Expiration := None, Value := v\<rparr> \<and>
            table (shards c1 ! i) = table (shards c ! i) \<and> hooked c1 = hooked c)"
proof -
  have i: "i < length (shards c)" using sh by (rule getShard_bound)
  note ge = getEntry_hit_NoExpiration [OF ttl tab]
  have g: "\<exists>c1. Get c k t = Inr (Some (Value (store c a)), c1) \<and>
            store c1 a = (store c a)\<lparr>Expiration := None\<rparr> \<and>
            table (shards c1 ! i) = table (shards c ! i) \<and> hooked c1 = hooked c"
    using sh ttl i by (simp add: Get_def genExp_def ge)
  have e: "\<exists>c1. GetEntry c k t = Inr (Some a, c1) \<and>
            store c1 a = (store c a)\<lparr>Expiration := None\<rparr> \<and>
            table (shards c1 ! i) = table (shards c ! i) \<and> hooked c1 = hooked c"
    using sh ttl i by (simp add: GetEntry_def genExp_def ge)
  have u: "\<exists>c1. Update c k cb t = Inr (Some a, c1) \<and>
            store c1 a = cb ((store c a)\<lparr>Expiration := None\<rparr>) \<and>
            table (shards c1 ! i) = table (shards c ! i) \<and> hooked c1 = hooked c"
    using sh ttl i by (simp add: Update_def genExp_def ge)
  have s: "\<exists>c1. Set c k v t = Inr c1 \<and>
            store c1 a = (store c a)\<lparr>Expiration := None, Value := v\<rparr> \<and>
            table (shards c1 ! i) = table (shards c ! i) \<and> hooked c1 = hooked c"
    using sh ttl i by (simp add: Set_def SetWithTTL_def genExp_def ge)
  from g e u s show ?thesis by blast
qed

lemma SetWithTTL_plain1_deadline1:
  "SetWithTTL plain1 ''a'' 1 50 0 = Inr deadline1"
  by (simp add: plain1_def deadline1_def SetWithTTL_def genExp_def getEntry_absent getShard_single
      NoExpiration_def lruShard_len_def list_Len_def lruShard_add_def list_PushFrontElement_def)

theorem NoExpiration_lookup_clears_deadline_witness:
  "TTL deadline1 = NoExpiration \<and> getShard deadline1 ''a'' = Inr 0 \<and>
   table (shards deadline1 ! 0) ''a'' = Some 0 \<and> Expiration (store deadline1 0) = Some 50 \<and>
   (\<exists>c1. Get deadline1 ''a'' 1000 = Inr (Some 1, c1) \<and> Expiration (store c1 0) = None \<and>
      table (shards c1 ! 0) ''a'' = Some 0) \<and>
   (\<exists>c1. GetEntry deadline1 ''a'' 1000 = Inr (Some 0, c1) \<and> Expiration (store c1 0) = None) \<and>
   (\<exists>c1. Update deadline1 ''a'' (\<lambda>e. e\<lparr>Value := Value e + 1\<rparr>) 1000 = Inr (Some 0, c1) \<and>
      store c1 0 = \<lparr>Key = ''a'', Value = 2, Expiration = None\<rparr>) \<and>
   (\<exists>c1. Set deadline1 ''a'' 7 1000 = Inr c1 \<and>
      store c1 0 = \<lparr>Key = ''a'', Value = 7, Expiration = None\<rparr>)"
proof -
  have pre: "TTL deadline1 = NoExpiration" "getShard deadline1 ''a'' = Inr 0"
    "table (shards deadline1 ! 0) ''a'' = Some 0"
    by (simp_all add: deadline1_def getShard_single NoExpiration_def)
  have st: "store deadline1 0 = \<lparr>Key = ''a'', Value = 1, Expiration = Some 50\<rparr>"
    by (simp add: deadline1_def)
  from NoExpiration_lookup_clears_deadline [OF pre, of 1000 "\<lambda>e. e\<lparr>Value := Value e + 1\<rparr>" 7] pre
  show ?thesis
    unfolding st by fastforce
qed

subsection \<open>The capacity bound\<close>

lemma within_eps_nth: "within_eps c \<Longrightarrow> i < length (shards c) \<Longrightarrow> lruShard_len (shards c ! i) \<le> eps c"
  by (simp add: within_eps_def list_all_length)

lemma within_eps_update:
  assumes "within_eps c" and "eps c' = eps c" and "shards c' = (shards c)[i := s]"
    and "lruShard_len s \<le> eps c"
  shows "within_eps c'"
proof -
  have "set (shards c') \<subseteq> insert s (set (shards c))"
    unfolding assms(3) by (rule set_update_subset_insert)
  then show ?thesis
    using assms(1,2,4) by (auto simp: within_eps_def list_all_iff)
qed

lemma len_offer_le: "lruShard_len (lruShard_offer s a) \<le> lruShard_len s"
proof (cases "a \<in> set (lst s)")
  case True
  then have "length (removeAll a (lst s)) < length (lst s)" by (rule length_removeAll_less)
  with True show ?thesis
    by (simp add: lruShard_len_def list_Len_def lruShard_offer_def list_MoveToFront_def)
next
  case False
  then show ?thesis
    by (simp add: lruShard_len_def list_Len_def lruShard_offer_def list_MoveToFront_def)
qed

lemma len_remove_le: "lruShard_len (lruShard_remove st s a) \<le> lruShard_len s"
  by (simp add: lruShard_len_def list_Len_def lruShard_remove_def list_Remove_def)

lemma len_remove_less:
  "a \<in> set (lst s) \<Longrightarrow> lruShard_len (lruShard_remove st s a) < lruShard_len s"
  by (simp add: lruShard_len_def list_Len_def lruShard_remove_def list_Remove_def length_removeAll_less)

lemma shards_remove: "shards (remove c i el) = (shards c)[i := lruShard_remove (store c) (shards c ! i) el]"
  by (simp add: remove_def Let_def)

lemma within_eps_remove: "within_eps c \<Longrightarrow> within_eps (remove c i el)"
proof (cases "i < length (shards c)")
  case True
  assume w: "within_eps c"
  have "lruShard_len (lruShard_remove (store c) (shards c ! i) el) \<le> eps c"
    using len_remove_le [of "store c" "shards c ! i" el] within_eps_nth [OF w True] by simp
  with w show ?thesis by (rule within_eps_update [OF _ remove_eps shards_remove])
next
  case False
  assume "within_eps c"
  with False show ?thesis by (simp add: within_eps_def shards_remove list_update_beyond)
qed

lemma oldest_mem: "lruShard_oldest s = Some a \<Longrightarrow> a \<in> set (lst s)"
  by (auto simp: lruShard_oldest_def list_Back_def split: if_splits)

lemma SetWithTTL_within_eps:
  assumes w: "within_eps c" and set: "SetWithTTL c k v ttl t = Inr c1"
  shows "within_eps c1"
proof -
  obtain exp where gx: "genExp t ttl = (t, exp)" by (simp add: genExp_def)
  obtain i where sh: "getShard c k = Inr i" using set
    by (cases "getShard c k") (auto simp: SetWithTTL_def gx)
  have i: "i < length (shards c)" using sh by (rule getShard_bound)
  obtain r c' where ge: "getEntry c i k t exp = Inr (r, c')"
    using set sh by (cases "getEntry c i k t exp") (auto simp: SetWithTTL_def gx)
  show ?thesis
  proof (cases r)
    case (Some el)
    with getEntry_cases [OF ge] have
      c': "c' = c\<lparr>store := (store c)(el := (store c el)\<lparr>Expiration := exp\<rparr>),
                   shards := (shards c)[i := lruShard_offer (shards c ! i) el]\<rparr>"
      by auto
    from set sh ge Some have c1: "c1 = c'\<lparr>store := (store c')(el := (store c' el)\<lparr>Value := v\<rparr>)\<rparr>"
      by (simp add: SetWithTTL_def gx)
    have "lruShard_len (lruShard_offer (shards c ! i) el) \<le> eps c"
      using len_offer_le [of "shards c ! i" el] within_eps_nth [OF w i] by simp
    moreover have "eps c1 = eps c" "shards c1 = (shards c)[i := lruShard_offer (shards c ! i) el]"
      unfolding c1 c' by simp_all
    ultimately show ?thesis using w within_eps_update by blast
  next
    case None
    with getEntry_cases [OF ge] have "c' = c \<or> (\<exists>el. c' = remove c i el)" by auto
    with w have w': "within_eps c'" by (auto intro: within_eps_remove)
    have i': "i < length (shards c')" using getEntry_frame [OF ge] i by simp
    define st where "st = (store c')(fresh c' := \<lparr>Key = k, Value = v,
                 Expiration = (if ttl \<noteq> NoExpiration then exp else None)\<rparr>)"
    define s3 where "s3 = lruShard_add st (shards c' ! i) (fresh c')"
    define c3 where "c3 = c'\<lparr>fresh := Suc (fresh c'), store := st, shards := (shards c')[i := s3]\<rparr>"
    have run: "SetWithTTL c k v ttl t =
      (if lruShard_len s3 > eps c'
       then (case lruShard_oldest s3 of None \<Rightarrow> Inl NilDereference | Some old \<Rightarrow> Inr (remove c3 i old))
       else Inr c3)"
      using sh ge None i'
      by (simp add: SetWithTTL_def gx Let_def c3_def s3_def st_def cong: option.case_cong)
    have "lruShard_len s3 = lruShard_len (shards c' ! i) + 1" by (simp add: s3_def)
    then have len3: "lruShard_len s3 \<le> eps c' + 1" using within_eps_nth [OF w' i'] by simp
    have sh3: "shards c3 = (shards c')[i := s3]" and e3: "eps c3 = eps c'" and st3: "store c3 = st"
      by (simp_all add: c3_def)
    show ?thesis
    proof (cases "lruShard_len s3 > eps c'")
      case True
      with set run obtain old where old: "lruShard_oldest s3 = Some old"
        and c1: "c1 = remove c3 i old"
        by (auto split: option.splits)
      have "lruShard_len (lruShard_remove st s3 old) < lruShard_len s3"
        using oldest_mem [OF old] by (rule len_remove_less)
      with len3 have le: "lruShard_len (lruShard_remove st s3 old) \<le> eps c'" by simp
      have "shards c1 = (shards c')[i := lruShard_remove st s3 old]" "eps c1 = eps c'"
        unfolding c1 using i' by (simp_all add: shards_remove sh3 e3 st3)
      with w' le show ?thesis using within_eps_update by blast
    next
      case False
      with set run have c1: "c1 = c3" by simp
      have "lruShard_len s3 \<le> eps c'" using False by simp
      with w' sh3 e3 show ?thesis unfolding c1 using within_eps_update by blast
    qed
  qed
qed

text \<open>
  C9. \<open>SetWithTTL\<close> and \<open>Set\<close> keep every shard within \<open>eps\<close>: when they return from
  a state where no shard holds more than \<open>eps\<close> entries, no shard does in the state
  they return. \<open>Load\<close> does not: the cache \<open>NewLRU mem 1 1 NoExpiration\<close>, of requested
  capacity 1 and \<open>eps = 1\<close>, is within \<open>eps\<close>, and \<open>Load\<close> of two records with the keys
  \<open>''a''\<close> and \<open>''b''\<close> returns a state whose one shard holds 2 entries, where \<open>Len\<close>
  returns 2.
\<close>

theorem Load_exceeds_eps:
  "(within_eps c \<longrightarrow> SetWithTTL c k v ttl t = Inr c1 \<longrightarrow> within_eps c1) \<and>
   (within_eps c \<longrightarrow> Set c k v t = Inr c2 \<longrightarrow> within_eps c2) \<and>
   (\<exists>c0 c3. NewLRU mem 1 1 NoExpiration = Inr c0 \<and> within_eps c0 \<and> eps c0 = 1 \<and>
      Load c0 [Record \<lparr>Key = ''a'', Value = v, Expiration = None\<rparr>,
               Record \<lparr>Key = ''b'', Value = v, Expiration = None\<rparr>] = Inr (None, c3) \<and>
      eps c3 = 1 \<and> lruShard_len (shards c3 ! 0) = 2 \<and> \<not> within_eps c3 \<and> Len c3 = Inr 2)"
proof -
  let ?c0 = "\<lparr>TTL = 0, OnRemove = False, shards = [\<lparr>lst = [], table = Map.empty\<rparr>],
             shardSize = 1, eps = 1, store = mem, fresh = 0, hooked = []\<rparr>"
  let ?recs = "[Record \<lparr>Key = ''a'', Value = v, Expiration = None\<rparr>,
                Record \<lparr>Key = ''b'', Value = v, Expiration = None\<rparr>]"
  have new: "NewLRU mem 1 1 NoExpiration = Inr ?c0"
    by (simp add: NewLRU_def maxSliceLen_def NoExpiration_def newShard_def list_New_def)
  have w0: "within_eps ?c0" by (simp add: within_eps_def lruShard_len_def list_Len_def)
  obtain c3 where load: "Load ?c0 ?recs = Inr (None, c3)"
    and e3: "eps c3 = 1" and s3: "shards c3 = [\<lparr>lst = [1, 0], table = [''a'' \<mapsto> 0, ''b'' \<mapsto> 1]\<rparr>]"
    and ss3: "shardSize c3 = 1"
    by (simp add: getShard_single lruShard_putIfAbsent_def lruShard_add_def
        list_PushFrontElement_def Let_def)
  have l3: "lruShard_len (shards c3 ! 0) = 2" by (simp add: s3 lruShard_len_def list_Len_def)
  have nw: "\<not> within_eps c3" by (simp add: within_eps_def s3 e3 lruShard_len_def list_Len_def)
  have len: "Len c3 = Inr 2"
    using Len_total [of c3] by (simp add: s3 ss3 lruShard_len_def list_Len_def)
  have a: "within_eps c \<longrightarrow> SetWithTTL c k v ttl t = Inr c1 \<longrightarrow> within_eps c1"
    by (intro impI) (rule SetWithTTL_within_eps)
  have b: "within_eps c \<longrightarrow> Set c k v t = Inr c2 \<longrightarrow> within_eps c2"
    unfolding Set_def by (intro impI) (rule SetWithTTL_within_eps)
  from new w0 load e3 l3 nw len have "\<exists>c0 c3. NewLRU mem 1 1 NoExpiration = Inr c0 \<and> within_eps c0 \<and> eps c0 = 1 \<and>
      Load c0 ?recs = Inr (None, c3) \<and>
      eps c3 = 1 \<and> lruShard_len (shards c3 ! 0) = 2 \<and> \<not> within_eps c3 \<and> Len c3 = Inr 2"
    by (intro exI [of _ ?c0] exI [of _ c3]) simp
  with a b show ?thesis by blast
qed


theorem Load_exceeds_eps_witness:
  "within_eps full1 \<and>
   (\<exists>c1. SetWithTTL full1 ''b'' 2 0 5 = Inr c1 \<and> Set full1 ''b'' 2 5 = Inr c1 \<and> within_eps c1) \<and>
   (\<exists>c0 c3. NewLRU blank 1 1 NoExpiration = Inr c0 \<and> within_eps c0 \<and>
      Load c0 [Record \<lparr>Key = ''a'', Value = 2, Expiration = None\<rparr>,
               Record \<lparr>Key = ''b'', Value = 2, Expiration = None\<rparr>] = Inr (None, c3) \<and>
      \<not> within_eps c3 \<and> Len c3 = Inr 2)"
proof -
  have w: "within_eps full1" by (simp add: within_eps_def full1_def lruShard_len_def list_Len_def)
  have pre: "getShard full1 ''b'' = Inr 0" "table (shards full1 ! 0) ''b'' = None"
    "lruShard_len (shards full1 ! 0) = eps full1" "shard_inv full1 0"
    by (simp_all add: full1_def getShard_single lruShard_len_def list_Len_def shard_inv_def)
  from SetWithTTL_evicts [OF pre, of 2 0 5] obtain c1 where
    s: "SetWithTTL full1 ''b'' 2 0 5 = Inr c1" by blast
  have s': "Set full1 ''b'' 2 5 = Inr c1" using s by (simp add: Set_def full1_def)
  from Load_exceeds_eps [where c = full1 and k = "''b''" and v = 2 and ttl = 0 and t = 5
      and ?c1.0 = c1 and ?c2.0 = c1 and mem = blank] w s s'
  show ?thesis by blast
qed

subsection \<open>SetOrUpdate\<close>




subsection \<open>The invariant of the states the operations reach\<close>

lemma NewLRU_cache_inv:
  assumes "NewLRU mem entrySize shardSize0 ttl = Inr c"
  shows "cache_inv c"
proof -
  let ?n = "if entrySize < 128 then 1 else shardSize0"
  from assms have pos: "0 < ?n" and small: "?n \<le> 2 ^ 45"
    by (auto simp: NewLRU_def Let_def maxSliceLen_def split: if_splits)
  from assms have sh: "shards c = replicate (nat ?n) newShard" and ss: "shardSize c = ?n"
    by (auto simp: NewLRU_def Let_def split: if_splits)
  have "(2::int) ^ 45 < 2 ^ 63" by simp
  with small have "?n < 2 ^ 63" by linarith
  then have "shaped c" using pos sh ss by (auto simp: shaped_def)
  moreover have "shard_inv c i \<and> indexed_ok c i" if "i < length (shards c)" for i
    using that sh by (simp add: shard_inv_def indexed_ok_def newShard_def list_New_def)
  ultimately show ?thesis by (simp add: cache_inv_def)
qed

text \<open>
  A step that rewrites one shard, allocates upwards and keeps the key of every allocated
  entry keeps the invariant when the new shard satisfies it.
\<close>

lemma cache_inv_step:
  assumes inv: "cache_inv c"
    and ss: "shardSize c' = shardSize c"
    and sh: "shards c' = (shards c)[i := s]"
    and fr: "fresh c \<le> fresh c'"
    and keys: "\<forall>a<fresh c. Key (store c' a) = Key (store c a)"
    and new: "i < length (shards c) \<Longrightarrow> shard_inv c' i \<and> indexed_ok c' i"
  shows "cache_inv c'"
proof -
  have len: "length (shards c') = length (shards c)" by (simp add: sh)
  have shp: "shaped c'" using inv ss len unfolding cache_inv_def shaped_def by auto
  have route: "getShard c' k = getShard c k" for k
    using getShard_cong [of c' c k] ss len by simp
  have "shard_inv c' j \<and> indexed_ok c' j" if j: "j < length (shards c')" for j
  proof (cases "j = i")
    case True
    with j len new show ?thesis by simp
  next
    case False
    from j len inv have old: "shard_inv c j" "indexed_ok c j" by (simp_all add: cache_inv_def)
    have same: "shards c' ! j = shards c ! j" using False by (simp add: sh)
    have below: "a < fresh c" if "a \<in> set (lst (shards c ! j))" for a
      using shard_inv_elem(1) [OF old(1) that] .
    have "shard_inv c' j"
      unfolding shard_inv_def same list_all_iff
    proof (intro conjI ballI)
      show "distinct (lst (shards c ! j))" using old(1) by (simp add: shard_inv_def)
    next
      fix a assume a: "a \<in> set (lst (shards c ! j))"
      from below [OF a] fr show "a < fresh c'" by simp
      from below [OF a] keys have k: "Key (store c' a) = Key (store c a)" by simp
      show "table (shards c ! j) (Key (store c' a)) = Some a"
        unfolding k using shard_inv_elem(2) [OF old(1) a] .
      show "getShard c' (Key (store c' a)) = Inr j"
        unfolding k route using shard_inv_elem(3) [OF old(1) a] .
    qed
    moreover have "indexed_ok c' j"
      unfolding indexed_ok_def same
    proof (intro allI impI)
      fix k a assume t: "table (shards c ! j) k = Some a"
      with old(2) have a: "a \<in> set (lst (shards c ! j))" and k: "Key (store c a) = k"
        by (auto simp: indexed_ok_def)
      from below [OF a] keys k have "Key (store c' a) = k" by simp
      with a show "a \<in> set (lst (shards c ! j)) \<and> Key (store c' a) = k" by simp
    qed
    ultimately show ?thesis ..
  qed
  with shp show ?thesis by (simp add: cache_inv_def)
qed


lemma cache_inv_nth:
  "cache_inv c \<Longrightarrow> i < length (shards c) \<Longrightarrow> shard_inv c i \<and> indexed_ok c i"
  by (simp add: cache_inv_def)

lemma indexed_okD:
  "indexed_ok c i \<Longrightarrow> table (shards c ! i) k = Some a \<Longrightarrow>
   a \<in> set (lst (shards c ! i)) \<and> Key (store c a) = k"
  by (auto simp: indexed_ok_def)

lemma key_inj:
  assumes "shard_inv c i" and "a \<in> set (lst (shards c ! i))" and "b \<in> set (lst (shards c ! i))"
    and "Key (store c a) = Key (store c b)"
  shows "a = b"
proof -
  have "Some a = table (shards c ! i) (Key (store c a))"
    using shard_inv_elem(2) [OF assms(1,2)] by (rule sym)
  also have "\<dots> = table (shards c ! i) (Key (store c b))" by (simp only: assms(4))
  also have "\<dots> = Some b" by (rule shard_inv_elem(2) [OF assms(1,3)])
  finally show ?thesis by simp
qed

lemma cache_inv_store:
  assumes inv: "cache_inv c" and key: "Key e = Key (store c a)"
  shows "cache_inv (c\<lparr>store := (store c)(a := e)\<rparr>)"
proof (rule cache_inv_step [OF inv, where i = "length (shards c)" and s = newShard])
  show "shards (c\<lparr>store := (store c)(a := e)\<rparr>) = (shards c)[length (shards c) := newShard]"
    by (simp add: list_update_beyond)
qed (use key in simp_all)

lemma cache_inv_remove:
  assumes inv: "cache_inv c" and i: "i < length (shards c)"
    and el: "el \<in> set (lst (shards c ! i))"
  shows "cache_inv (remove c i el)"
proof (rule cache_inv_step [OF inv, where i = i and s = "lruShard_remove (store c) (shards c ! i) el"])
  let ?c' = "remove c i el"
  let ?s = "shards c ! i"
  from cache_inv_nth [OF inv i] have si: "shard_inv c i" and ix: "indexed_ok c i" by simp_all
  have keys: "Key (store ?c' a) = Key (store c a)" for a by (simp add: remove_def Let_def)
  have s': "shards ?c' ! i = lruShard_remove (store c) ?s el" using i by (simp add: shards_remove)
  have route: "getShard ?c' k = getShard c k" for k using getShard_cong [of ?c' c k] by simp
  show "shard_inv ?c' i \<and> indexed_ok ?c' i"
  proof
    show "shard_inv ?c' i"
      unfolding shard_inv_def s' list_all_iff
    proof (intro conjI ballI)
      show "distinct (lst (lruShard_remove (store c) ?s el))"
        using si by (simp add: lruShard_remove_def list_Remove_def shard_inv_def distinct_removeAll)
    next
      fix a assume "a \<in> set (lst (lruShard_remove (store c) ?s el))"
      then have a: "a \<in> set (lst ?s)" and ne: "a \<noteq> el"
        by (simp_all add: lruShard_remove_def list_Remove_def)
      from key_inj [OF si a el] ne have kne: "Key (store c a) \<noteq> Key (store c el)" by auto
      show "a < fresh ?c'" using shard_inv_elem(1) [OF si a] by simp
      show "table (lruShard_remove (store c) ?s el) (Key (store ?c' a)) = Some a"
        unfolding keys using kne shard_inv_elem(2) [OF si a] by (simp add: lruShard_remove_def)
      show "getShard ?c' (Key (store ?c' a)) = Inr i"
        unfolding keys route using shard_inv_elem(3) [OF si a] .
    qed
  next
    show "indexed_ok ?c' i"
      unfolding indexed_ok_def s'
    proof (intro allI impI)
      fix k a assume t: "table (lruShard_remove (store c) ?s el) k = Some a"
      then have kne: "k \<noteq> Key (store c el)" and t0: "table ?s k = Some a"
        by (auto simp: lruShard_remove_def split: if_splits)
      from indexed_okD [OF ix t0] have a: "a \<in> set (lst ?s)" and k: "Key (store c a) = k" by simp_all
      from k kne have "a \<noteq> el" by auto
      with a k show "a \<in> set (lst (lruShard_remove (store c) ?s el)) \<and> Key (store ?c' a) = k"
        unfolding keys by (simp add: lruShard_remove_def list_Remove_def)
    qed
  qed
qed (simp_all add: shards_remove remove_def Let_def)

lemma cache_inv_offer:
  assumes inv: "cache_inv c" and i: "i < length (shards c)"
    and el: "el \<in> set (lst (shards c ! i))"
  shows "cache_inv (c\<lparr>shards := (shards c)[i := lruShard_offer (shards c ! i) el]\<rparr>)"
proof (rule cache_inv_step [OF inv, where i = i and s = "lruShard_offer (shards c ! i) el"])
  let ?c' = "c\<lparr>shards := (shards c)[i := lruShard_offer (shards c ! i) el]\<rparr>"
  let ?s = "shards c ! i"
  from cache_inv_nth [OF inv i] have si: "shard_inv c i" and ix: "indexed_ok c i" by simp_all
  have l': "lst (shards ?c' ! i) = el # removeAll el (lst ?s)" and t': "table (shards ?c' ! i) = table ?s"
    using i el by (simp_all add: lruShard_offer_def list_MoveToFront_def)
  have set': "set (lst (shards ?c' ! i)) = set (lst ?s)" using el unfolding l' by auto
  have route: "getShard ?c' k = getShard c k" for k using getShard_cong [of ?c' c k] by simp
  have d: "distinct (lst (shards ?c' ! i))"
    unfolding l' using si by (simp add: shard_inv_def distinct_removeAll)
  show "shard_inv ?c' i \<and> indexed_ok ?c' i"
  proof
    show "shard_inv ?c' i"
      unfolding shard_inv_def list_all_iff set' t' route
      using d shard_inv_elem [OF si] by simp
    show "indexed_ok ?c' i"
      unfolding indexed_ok_def set' t' using ix by (simp add: indexed_ok_def)
  qed
qed simp_all

lemma cache_inv_add:
  assumes inv: "cache_inv c" and sh: "getShard c k = Inr i"
    and absent: "table (shards c ! i) k = None" and key: "Key e = k"
  shows "cache_inv (c\<lparr>fresh := Suc (fresh c), store := (store c)(fresh c := e),
            shards := (shards c)[i := lruShard_add ((store c)(fresh c := e)) (shards c ! i) (fresh c)]\<rparr>)"
    (is "cache_inv ?c'")
proof (rule cache_inv_step [OF inv, where i = i
        and s = "lruShard_add ((store c)(fresh c := e)) (shards c ! i) (fresh c)"])
  let ?s = "shards c ! i"
  have i: "i < length (shards c)" using sh by (rule getShard_bound)
  from cache_inv_nth [OF inv i] have si: "shard_inv c i" and ix: "indexed_ok c i" by simp_all
  have l': "lst (shards ?c' ! i) = fresh c # lst ?s"
    and t': "table (shards ?c' ! i) = (table ?s)(k \<mapsto> fresh c)"
    using i key by simp_all
  have route: "getShard ?c' k = getShard c k" for k using getShard_cong [of ?c' c k] by simp
  have old: "a < fresh c \<and> a \<noteq> fresh c \<and> Key (store c a) \<noteq> k \<and> table ?s (Key (store c a)) = Some a
             \<and> getShard c (Key (store c a)) = Inr i"
    if "a \<in> set (lst ?s)" for a
    using shard_inv_elem [OF si that] absent by auto
  show "shard_inv ?c' i \<and> indexed_ok ?c' i"
  proof
    show "shard_inv ?c' i"
      unfolding shard_inv_def list_all_iff l' t' route
    proof (intro conjI ballI)
      show "distinct (fresh c # lst ?s)" using si by (auto simp: shard_inv_def dest!: old)
    next
      fix a assume "a \<in> set (fresh c # lst ?s)"
      then consider "a = fresh c" | "a \<in> set (lst ?s)" by auto
      then show "a < fresh ?c'" by cases (auto dest!: old)
    next
      fix a assume "a \<in> set (fresh c # lst ?s)"
      then consider "a = fresh c" | "a \<in> set (lst ?s)" by auto
      then show "((table ?s)(k \<mapsto> fresh c)) (Key (store ?c' a)) = Some a"
        using key by cases (auto dest!: old)
    next
      fix a assume "a \<in> set (fresh c # lst ?s)"
      then consider "a = fresh c" | "a \<in> set (lst ?s)" by auto
      then show "getShard c (Key (store ?c' a)) = Inr i"
        using key sh by cases (auto dest!: old)
    qed
    show "indexed_ok ?c' i"
      unfolding indexed_ok_def l' t'
    proof (intro allI impI)
      fix k' a assume t: "((table ?s)(k \<mapsto> fresh c)) k' = Some a"
      show "a \<in> set (fresh c # lst ?s) \<and> Key (store ?c' a) = k'"
      proof (cases "k' = k")
        case True
        with t key show ?thesis by simp
      next
        case False
        with t have "table ?s k' = Some a" by simp
        from indexed_okD [OF ix this] old [of a] show ?thesis by auto
      qed
    qed
  qed
next
  show "\<forall>a<fresh c. Key (store ?c' a) = Key (store c a)" by simp
qed simp_all


lemma getEntry_cache_inv:
  assumes inv: "cache_inv c" and i: "i < length (shards c)"
    and ge: "getEntry c i k now exp = Inr (r, c')"
  shows "cache_inv c' \<and> (r = None \<longrightarrow> table (shards c' ! i) k = None)"
proof (cases "table (shards c ! i) k")
  case None
  with ge inv show ?thesis by (simp add: getEntry_absent)
next
  case (Some el)
  from cache_inv_nth [OF inv i] have ix: "indexed_ok c i" by simp
  from indexed_okD [OF ix Some] have el: "el \<in> set (lst (shards c ! i))"
    and key: "Key (store c el) = k" by simp_all
  show ?thesis
  proof (cases r)
    case None
    with getEntry_cases [OF ge] Some have c': "c' = remove c i el"
      using ge by (auto simp: getEntry_def lruShard_get_def Let_def
          split: sum.splits bool.splits if_splits)
    have "table (shards (remove c i el) ! i) k = None"
      using i key by (simp add: shards_remove lruShard_remove_def)
    with cache_inv_remove [OF inv i el] None c' show ?thesis by simp
  next
    case (Some el')
    with getEntry_cases [OF ge] \<open>table (shards c ! i) k = Some el\<close>
    have c': "c' = c\<lparr>store := (store c)(el := (store c el)\<lparr>Expiration := exp\<rparr>),
                      shards := (shards c)[i := lruShard_offer (shards c ! i) el]\<rparr>"
      by auto
    let ?c1 = "c\<lparr>store := (store c)(el := (store c el)\<lparr>Expiration := exp\<rparr>)\<rparr>"
    have inv1: "cache_inv ?c1" by (rule cache_inv_store [OF inv]) simp
    have "cache_inv (?c1\<lparr>shards := (shards ?c1)[i := lruShard_offer (shards ?c1 ! i) el]\<rparr>)"
      by (rule cache_inv_offer [OF inv1]) (use i el in simp_all)
    then show ?thesis using Some c' by simp
  qed
qed

lemma SetWithTTL_cache_inv:
  assumes inv: "cache_inv c" and set: "SetWithTTL c k v ttl t = Inr c1"
  shows "cache_inv c1"
proof -
  obtain exp where gx: "genExp t ttl = (t, exp)" by (simp add: genExp_def)
  obtain i where sh: "getShard c k = Inr i" using set
    by (cases "getShard c k") (auto simp: SetWithTTL_def gx)
  have i: "i < length (shards c)" using sh by (rule getShard_bound)
  obtain r c' where ge: "getEntry c i k t exp = Inr (r, c')"
    using set sh by (cases "getEntry c i k t exp") (auto simp: SetWithTTL_def gx)
  from getEntry_cache_inv [OF inv i ge] have inv': "cache_inv c'"
    and miss: "r = None \<longrightarrow> table (shards c' ! i) k = None" by simp_all
  note fr = getEntry_frame [OF ge]
  show ?thesis
  proof (cases r)
    case (Some el)
    from set sh ge Some have c1: "c1 = c'\<lparr>store := (store c')(el := (store c' el)\<lparr>Value := v\<rparr>)\<rparr>"
      by (simp add: SetWithTTL_def gx)
    show ?thesis unfolding c1 by (rule cache_inv_store [OF inv']) simp
  next
    case None
    have i': "i < length (shards c')" using fr i by simp
    have sh': "getShard c' k = Inr i" using sh getShard_cong [of c' c k] fr by simp
    define e where "e = \<lparr>Key = k, Value = v,
                 Expiration = (if ttl \<noteq> NoExpiration then exp else None)\<rparr>"
    define c3 where "c3 = c'\<lparr>fresh := Suc (fresh c'), store := (store c')(fresh c' := e),
       shards := (shards c')[i := lruShard_add ((store c')(fresh c' := e)) (shards c' ! i) (fresh c')]\<rparr>"
    have inv3: "cache_inv c3" unfolding c3_def
      by (rule cache_inv_add [OF inv' sh']) (use miss None in \<open>simp_all add: e_def\<close>)
    have s3: "shards c3 ! i = lruShard_add ((store c')(fresh c' := e)) (shards c' ! i) (fresh c')"
      and e3: "eps c3 = eps c'" and len3: "length (shards c3) = length (shards c')"
      using i' by (simp_all add: c3_def)
    have run: "SetWithTTL c k v ttl t =
      (if lruShard_len (shards c3 ! i) > eps c3
       then (case lruShard_oldest (shards c3 ! i) of
               None \<Rightarrow> Inl NilDereference | Some old \<Rightarrow> Inr (remove c3 i old))
       else Inr c3)"
      unfolding s3 e3 using sh ge None i'
      by (simp add: SetWithTTL_def gx Let_def c3_def e_def cong: option.case_cong)
    show ?thesis
    proof (cases "lruShard_len (shards c3 ! i) > eps c3")
      case True
      with set run obtain old where old: "lruShard_oldest (shards c3 ! i) = Some old"
        and c1: "c1 = remove c3 i old"
        by (auto split: option.splits)
      show ?thesis unfolding c1
        by (rule cache_inv_remove [OF inv3]) (use i' len3 oldest_mem [OF old] in simp_all)
    next
      case False
      with set run inv3 show ?thesis by simp
    qed
  qed
qed

lemma Get_cache_inv:
  assumes inv: "cache_inv c" and get: "Get c k t = Inr (r, c1)"
  shows "cache_inv c1"
proof -
  obtain i where sh: "getShard c k = Inr i" using get
    by (cases "getShard c k") (auto simp: Get_def genExp_def)
  obtain r' c' where ge: "getEntry c i k t (snd (genExp t (TTL c))) = Inr (r', c')"
    using get sh by (cases "getEntry c i k t (snd (genExp t (TTL c)))") (auto simp: Get_def genExp_def)
  from get sh ge have "c1 = c'" by (auto simp: Get_def genExp_def split: option.splits)
  with getEntry_cache_inv [OF inv getShard_bound [OF sh] ge] show ?thesis by simp
qed

lemma Update_cache_inv:
  assumes inv: "cache_inv c" and up: "Update c k cb t = Inr (r, c1)"
    and keeps: "\<And>e. Key (cb e) = Key e"
  shows "cache_inv c1"
proof -
  obtain i where sh: "getShard c k = Inr i" using up
    by (cases "getShard c k") (auto simp: Update_def genExp_def)
  obtain r' c' where ge: "getEntry c i k t (snd (genExp t (TTL c))) = Inr (r', c')"
    using up sh by (cases "getEntry c i k t (snd (genExp t (TTL c)))") (auto simp: Update_def genExp_def)
  from getEntry_cache_inv [OF inv getShard_bound [OF sh] ge] have inv': "cache_inv c'" by simp
  show ?thesis
  proof (cases r')
    case None
    with up sh ge have "c1 = c'" by (simp add: Update_def genExp_def)
    with inv' show ?thesis by simp
  next
    case (Some el)
    with up sh ge have c1: "c1 = c'\<lparr>store := (store c')(el := cb (store c' el))\<rparr>"
      by (simp add: Update_def genExp_def)
    show ?thesis unfolding c1 by (rule cache_inv_store [OF inv']) (rule keeps)
  qed
qed

lemma Remove_cache_inv:
  assumes inv: "cache_inv c" and rm: "Remove c k = Inr c1"
  shows "cache_inv c1"
proof -
  obtain i where sh: "getShard c k = Inr i" using rm
    by (cases "getShard c k") (auto simp: Remove_def)
  have i: "i < length (shards c)" using sh by (rule getShard_bound)
  show ?thesis
  proof (cases "table (shards c ! i) k")
    case None
    with rm sh inv show ?thesis by (simp add: Remove_def lruShard_get_def)
  next
    case (Some el)
    with rm sh have c1: "c1 = remove c i el" by (simp add: Remove_def lruShard_get_def)
    from cache_inv_nth [OF inv i] have "indexed_ok c i" by simp
    from indexed_okD [OF this Some] have "el \<in> set (lst (shards c ! i))" by simp
    then show ?thesis unfolding c1 by (rule cache_inv_remove [OF inv i])
  qed
qed


lemma Load_cache_inv:
  assumes "cache_inv c" and "Load c recs = Inr (err, c1)"
  shows "cache_inv c1"
  using assms
proof (induction recs arbitrary: c)
  case Nil
  then show ?case by simp
next
  case (Cons r recs)
  show ?case
  proof (cases r)
    case (DecodeError e)
    with Cons.prems show ?thesis by simp
  next
    case (Record entry)
    obtain i where sh: "getShard c (Key entry) = Inr i" using Cons.prems(2) Record
      by (cases "getShard c (Key entry)") auto
    have i: "i < length (shards c)" using sh by (rule getShard_bound)
    let ?st = "(store c)(fresh c := entry)"
    let ?c2 = "c\<lparr>fresh := Suc (fresh c), store := ?st,
                  shards := (shards c)[i := lruShard_putIfAbsent ?st (shards c ! i) (fresh c)]\<rparr>"
    have step: "Load c (r # recs) = Load ?c2 recs" using Record sh by (simp add: Let_def)
    have "cache_inv ?c2"
    proof (cases "table (shards c ! i) (Key entry)")
      case None
      then have "lruShard_putIfAbsent ?st (shards c ! i) (fresh c) = lruShard_add ?st (shards c ! i) (fresh c)"
        by (simp add: lruShard_putIfAbsent_def)
      then show ?thesis using cache_inv_add [OF Cons.prems(1) sh None refl] by simp
    next
      case (Some a)
      then have same: "lruShard_putIfAbsent ?st (shards c ! i) (fresh c) = shards c ! i"
        by (simp add: lruShard_putIfAbsent_def)
      show ?thesis
      proof (rule cache_inv_step [OF Cons.prems(1), where i = "length (shards c)" and s = newShard])
        show "shards ?c2 = (shards c)[length (shards c) := newShard]"
          by (simp add: same list_update_beyond)
      qed simp_all
    qed
    from Cons.IH [OF this] Cons.prems(2) step show ?thesis by simp
  qed
qed

lemma cache_inv_present:
  assumes "cache_inv c" and "getShard c k = Inr i" and "table (shards c ! i) k = Some a"
  shows "shaped c" and "shard_inv c i" and "a \<in> set (lst (shards c ! i))"
    and "Key (store c a) = k" and "a < fresh c"
proof -
  have i: "i < length (shards c)" using assms(2) by (rule getShard_bound)
  from cache_inv_nth [OF assms(1) i] have si: "shard_inv c i" and ix: "indexed_ok c i" by simp_all
  show "shard_inv c i" by (rule si)
  from indexed_okD [OF ix assms(3)] show a: "a \<in> set (lst (shards c ! i))"
    and "Key (store c a) = k" by simp_all
  from shard_inv_elem(1) [OF si a] show "a < fresh c" .
  from assms(1) show "shaped c" by (simp add: cache_inv_def)
qed

subsection \<open>The shape of the states the write path returns\<close>

lemma getEntry_shape:
  assumes "getEntry c i k now exp = Inr (r, c')"
  shows "(table (shards c ! i) k = None \<and> r = None \<and> c' = c) \<or>
         (\<exists>el. table (shards c ! i) k = Some el \<and>
            ((r = None \<and> \<not> live c el now \<and> c' = remove c i el) \<or>
             (r = Some el \<and> live c el now \<and> c' = touched c i el exp)))"
  using assms
  by (auto simp: getEntry_def lruShard_get_def Let_def Before_def live_def touched_def
      split: option.splits sum.splits bool.splits if_splits)

lemma SetWithTTL_shape:
  assumes set: "SetWithTTL c k v ttl t = Inr c1" and sh: "getShard c k = Inr i"
    and gx: "genExp t ttl = (t, exp)"
    and e: "e = \<lparr>Key = k, Value = v, Expiration = (if ttl \<noteq> NoExpiration then exp else None)\<rparr>"
  shows "(\<exists>el c'. getEntry c i k t exp = Inr (Some el, c') \<and>
            c1 = c'\<lparr>store := (store c')(el := (store c' el)\<lparr>Value := v\<rparr>)\<rparr>) \<or>
         (\<exists>c'. getEntry c i k t exp = Inr (None, c') \<and>
            (c1 = inserted c' i e \<or>
             (\<exists>old. old \<in> set (lst (shards (inserted c' i e) ! i)) \<and>
                eps c' < lruShard_len (shards (inserted c' i e) ! i) \<and>
                c1 = remove (inserted c' i e) i old)))"
proof -
  obtain r c' where ge: "getEntry c i k t exp = Inr (r, c')"
    using set sh by (cases "getEntry c i k t exp") (auto simp: SetWithTTL_def gx)
  show ?thesis
  proof (cases r)
    case (Some el)
    with set sh ge show ?thesis by (simp add: SetWithTTL_def gx)
  next
    case None
    have run: "SetWithTTL c k v ttl t =
      (if lruShard_len (shards (inserted c' i e) ! i) > eps c'
       then (case lruShard_oldest (shards (inserted c' i e) ! i) of
               None \<Rightarrow> Inl NilDereference | Some old \<Rightarrow> Inr (remove (inserted c' i e) i old))
       else Inr (inserted c' i e))"
      using sh ge None
      by (simp add: SetWithTTL_def gx Let_def inserted_def e cong: option.case_cong)
    show ?thesis
    proof (cases "lruShard_len (shards (inserted c' i e) ! i) > eps c'")
      case True
      with set run obtain old where old: "lruShard_oldest (shards (inserted c' i e) ! i) = Some old"
        and c1: "c1 = remove (inserted c' i e) i old"
        by (auto split: option.splits)
      from oldest_mem [OF old] True c1 ge None show ?thesis by blast
    next
      case False
      with set run have "c1 = inserted c' i e" by simp
      with ge None show ?thesis by blast
    qed
  qed
qed

subsection \<open>The keys of a shard after each step\<close>

lemma map_removeAll_inj:
  "inj_on f (insert x (set xs)) \<Longrightarrow> map f (removeAll x xs) = removeAll (f x) (map f xs)"
  by (induction xs) (auto simp: inj_on_def)

lemma key_inj_on:
  assumes "shard_inv c i"
  shows "inj_on (\<lambda>a. Key (store c a)) (set (lst (shards c ! i)))"
  using key_inj [OF assms] by (auto simp: inj_on_def)

lemma key_list_store:
  "Key e = Key (store c a) \<Longrightarrow> key_list (c\<lparr>store := (store c)(a := e)\<rparr>) i = key_list c i"
  by (simp add: key_list_def)

lemma key_list_remove:
  assumes inv: "cache_inv c" and j: "j < length (shards c)"
    and el: "el \<in> set (lst (shards c ! j))"
  shows "key_list (remove c j el) i =
           (if j = i then removeAll (Key (store c el)) (key_list c i) else key_list c i)"
proof -
  have keys: "Key (store (remove c j' el) a) = Key (store c a)" for a j'
    by (simp add: remove_def Let_def)
  show ?thesis
  proof (cases "j = i")
    case False
    then show ?thesis by (simp add: key_list_def keys shards_remove)
  next
    case True
    from cache_inv_nth [OF inv j] have si: "shard_inv c j" by simp
    have "inj_on (\<lambda>a. Key (store c a)) (insert el (set (lst (shards c ! j))))"
      using key_inj_on [OF si] el by (simp add: insert_absorb)
    from map_removeAll_inj [OF this] True j show ?thesis
      by (simp add: key_list_def keys shards_remove lruShard_remove_def list_Remove_def)
  qed
qed

lemma key_list_touched:
  assumes inv: "cache_inv c" and j: "j < length (shards c)"
    and el: "el \<in> set (lst (shards c ! j))"
  shows "key_list (touched c j el exp) i =
           (if j = i then Key (store c el) # removeAll (Key (store c el)) (key_list c i)
            else key_list c i)"
proof -
  have keys: "Key (store (touched c j' el exp) a) = Key (store c a)" for a j'
    by (simp add: touched_def)
  show ?thesis
  proof (cases "j = i")
    case False
    then show ?thesis by (simp add: key_list_def keys) (simp add: touched_def)
  next
    case True
    from cache_inv_nth [OF inv j] have si: "shard_inv c j" by simp
    have "inj_on (\<lambda>a. Key (store c a)) (insert el (set (lst (shards c ! j))))"
      using key_inj_on [OF si] el by (simp add: insert_absorb)
    from map_removeAll_inj [OF this] True j el show ?thesis
      by (simp add: key_list_def keys) (simp add: touched_def lruShard_offer_def list_MoveToFront_def)
  qed
qed

lemma key_list_inserted:
  assumes inv: "cache_inv c" and j: "j < length (shards c)" and i: "i < length (shards c)"
  shows "key_list (inserted c j e) i = (if j = i then Key e # key_list c i else key_list c i)"
proof -
  have below: "a \<noteq> fresh c" if "a \<in> set (lst (shards c ! i))" for a
    using shard_inv_elem(1) [of c i a] cache_inv_nth [OF inv i] that by auto
  have "map (\<lambda>a. Key (((store c)(fresh c := e)) a)) (lst (shards c ! i)) = key_list c i"
    unfolding key_list_def using below by (intro map_cong) auto
  with j show ?thesis by (auto simp: key_list_def inserted_def)
qed

subsection \<open>Lists in the order of last use\<close>

lemma by_last_use_start: "distinct ks \<Longrightarrow> by_last_use (rev ks) ks"
  by (simp add: by_last_use_def distinct_remdups_id)

lemma removeAll_as_filter: "removeAll k xs = filter (\<lambda>x. x \<noteq> k) xs"
  by (induction xs) auto

lemma remdups_snoc: "remdups (U @ [k]) = removeAll k (remdups U) @ [k]"
  by (induction U) auto

lemma filter_removeAll_ins:
  "filter (\<lambda>x. x \<in> set (k # removeAll k ks)) (removeAll k R) =
   removeAll k (filter (\<lambda>x. x \<in> set ks) R)"
  by (induction R) auto

lemma filter_removeAll_del:
  "filter (\<lambda>x. x \<in> set (removeAll k ks)) R = removeAll k (filter (\<lambda>x. x \<in> set ks) R)"
  by (induction R) auto

lemma by_last_use_use:
  assumes "by_last_use U ks"
  shows "by_last_use (U @ [k]) (k # removeAll k ks)"
proof -
  let ?R = "rev (remdups U)"
  from assms have d: "distinct ks" and eq: "ks = filter (\<lambda>x. x \<in> set ks) ?R"
    by (simp_all add: by_last_use_def)
  have "filter (\<lambda>x. x \<in> set (k # removeAll k ks)) (rev (remdups (U @ [k])))
        = k # filter (\<lambda>x. x \<in> set (k # removeAll k ks)) (removeAll k ?R)"
    by (simp add: remdups_snoc removeAll_as_filter rev_filter)
  also have "filter (\<lambda>x. x \<in> set (k # removeAll k ks)) (removeAll k ?R)
        = removeAll k (filter (\<lambda>x. x \<in> set ks) ?R)"
    by (rule filter_removeAll_ins)
  also have "\<dots> = removeAll k ks" using eq by simp
  finally have "k # removeAll k ks =
      filter (\<lambda>x. x \<in> set (k # removeAll k ks)) (rev (remdups (U @ [k])))" by simp
  moreover have "distinct (k # removeAll k ks)" using d by (simp add: distinct_removeAll)
  ultimately show ?thesis unfolding by_last_use_def by blast
qed

lemma by_last_use_drop:
  assumes "by_last_use U ks"
  shows "by_last_use U (removeAll k ks)"
proof -
  let ?R = "rev (remdups U)"
  from assms have d: "distinct ks" and eq: "ks = filter (\<lambda>x. x \<in> set ks) ?R"
    by (simp_all add: by_last_use_def)
  have "filter (\<lambda>x. x \<in> set (removeAll k ks)) ?R = removeAll k (filter (\<lambda>x. x \<in> set ks) ?R)"
    by (rule filter_removeAll_del)
  also have "\<dots> = removeAll k ks" using eq by simp
  finally have "removeAll k ks = filter (\<lambda>x. x \<in> set (removeAll k ks)) ?R" by simp
  moreover have "distinct (removeAll k ks)" using d by (simp add: distinct_removeAll)
  ultimately show ?thesis unfolding by_last_use_def by blast
qed

lemma by_last_use_empty: "by_last_use U []"
  by (simp add: by_last_use_def)

lemma find_filter: "find P xs = (case filter P xs of [] \<Rightarrow> None | x # _ \<Rightarrow> Some x)"
  by (induction xs) auto

lemma by_last_use_last:
  assumes "by_last_use U ks" and "ks \<noteq> []"
  shows "least_recently_used U ks = Some (last ks)"
proof -
  from assms(1) have eq: "ks = filter (\<lambda>x. x \<in> set ks) (rev (remdups U))"
    by (simp add: by_last_use_def)
  have "filter (\<lambda>x. x \<in> set ks) (remdups U) = rev (filter (\<lambda>x. x \<in> set ks) (rev (remdups U)))"
    by (simp add: rev_filter)
  also have "\<dots> = rev ks" using eq by simp
  finally have f: "filter (\<lambda>x. x \<in> set ks) (remdups U) = rev ks" .
  from assms(2) obtain x xs where r: "rev ks = x # xs" by (cases "rev ks") auto
  have "last ks = hd (rev ks)" using assms(2) by (simp add: hd_rev)
  then have "last ks = x" using r by simp
  with f r show ?thesis by (simp add: least_recently_used_def find_filter)
qed

subsection \<open>The lookup, step by step\<close>

lemma cache_inv_touched:
  assumes inv: "cache_inv c" and j: "j < length (shards c)"
    and el: "el \<in> set (lst (shards c ! j))"
  shows "cache_inv (touched c j el exp)"
proof -
  let ?c1 = "c\<lparr>store := (store c)(el := (store c el)\<lparr>Expiration := exp\<rparr>)\<rparr>"
  have inv1: "cache_inv ?c1" by (rule cache_inv_store [OF inv]) simp
  have "cache_inv (?c1\<lparr>shards := (shards ?c1)[j := lruShard_offer (shards ?c1 ! j) el]\<rparr>)"
    by (rule cache_inv_offer [OF inv1]) (use j el in simp_all)
  then show ?thesis by (simp add: touched_def)
qed

lemma cache_inv_inserted:
  assumes "cache_inv c" and "getShard c k = Inr j" and "table (shards c ! j) k = None"
    and "Key e = k"
  shows "cache_inv (inserted c j e)"
  unfolding inserted_def using assms by (rule cache_inv_add)

lemma absent_not_listed:
  assumes si: "shard_inv c i" and absent: "table (shards c ! i) k = None"
  shows "k \<notin> set (key_list c i)"
proof
  assume "k \<in> set (key_list c i)"
  then obtain a where a: "a \<in> set (lst (shards c ! i))" and k: "Key (store c a) = k"
    by (auto simp: key_list_def)
  from shard_inv_elem(2) [OF si a] k absent show False by simp
qed

lemma getEntry_keys_absent:
  assumes inv: "cache_inv c" and j: "j < length (shards c)"
    and t: "table (shards c ! j) k = None"
  shows "(if j = i then removeAll k (key_list c i) else key_list c i) = key_list c i"
proof -
  from cache_inv_nth [OF inv j] have si: "shard_inv c j" by simp
  from absent_not_listed [OF si t] have "removeAll k (key_list c j) = key_list c j" by simp
  then show ?thesis by auto
qed

lemma getEntry_keys_expired:
  assumes inv: "cache_inv c" and j: "j < length (shards c)"
    and t: "table (shards c ! j) k = Some el"
  shows "cache_inv (remove c j el)"
    and "key_list (remove c j el) i = (if j = i then removeAll k (key_list c i) else key_list c i)"
    and "table (shards (remove c j el) ! j) k = None"
proof -
  from cache_inv_nth [OF inv j] have ix: "indexed_ok c j" by simp
  from indexed_okD [OF ix t] have el: "el \<in> set (lst (shards c ! j))"
    and key: "Key (store c el) = k" by simp_all
  show "cache_inv (remove c j el)" by (rule cache_inv_remove [OF inv j el])
  show "key_list (remove c j el) i = (if j = i then removeAll k (key_list c i) else key_list c i)"
    using key_list_remove [OF inv j el, of i] key by simp
  show "table (shards (remove c j el) ! j) k = None"
    using j key by (simp add: shards_remove lruShard_remove_def)
qed

lemma getEntry_keys_hit:
  assumes inv: "cache_inv c" and j: "j < length (shards c)"
    and t: "table (shards c ! j) k = Some el"
  shows "cache_inv (touched c j el exp)"
    and "key_list (touched c j el exp) i =
          (if j = i then k # removeAll k (key_list c i) else key_list c i)"
proof -
  from cache_inv_nth [OF inv j] have ix: "indexed_ok c j" by simp
  from indexed_okD [OF ix t] have el: "el \<in> set (lst (shards c ! j))"
    and key: "Key (store c el) = k" by simp_all
  show "cache_inv (touched c j el exp)" by (rule cache_inv_touched [OF inv j el])
  show "key_list (touched c j el exp) i =
          (if j = i then k # removeAll k (key_list c i) else key_list c i)"
    using key_list_touched [OF inv j el, of exp i] key by simp
qed

lemma getEntry_keys:
  assumes inv: "cache_inv c" and j: "j < length (shards c)"
    and ge: "getEntry c j k now exp = Inr (r, c')"
  shows "cache_inv c' \<and>
     key_list c' i =
          (if j = i then (if r = None then removeAll k (key_list c i)
                          else k # removeAll k (key_list c i))
           else key_list c i) \<and>
     (r = None \<longrightarrow> table (shards c' ! j) k = None) \<and>
     (r \<noteq> None) = (case table (shards c ! j) k of None \<Rightarrow> False | Some a \<Rightarrow> live c a now)"
proof -
  from getEntry_shape [OF ge] show ?thesis
  proof (elim disjE conjE exE)
    assume a: "table (shards c ! j) k = None" "r = None" "c' = c"
    show ?thesis
      unfolding a(2,3) using inv a(1) getEntry_keys_absent [OF inv j a(1), of i]
      by (auto split: if_splits)
  next
    fix el assume a: "table (shards c ! j) k = Some el" "r = None" "\<not> live c el now"
      "c' = remove c j el"
    show ?thesis
      unfolding a(2,4)
      using a(1,3) getEntry_keys_expired(1,3) [OF inv j a(1)]
        getEntry_keys_expired(2) [OF inv j a(1), of i] by simp
  next
    fix el assume a: "table (shards c ! j) k = Some el" "r = Some el" "live c el now"
      "c' = touched c j el exp"
    show ?thesis
      unfolding a(2,4)
      using a(1,3) getEntry_keys_hit(1) [OF inv j a(1), of exp]
        getEntry_keys_hit(2) [OF inv j a(1), of exp i] by simp
  qed
qed

lemma inserted_frame [simp]:
  "shardSize (inserted c i e) = shardSize c" "length (shards (inserted c i e)) = length (shards c)"
  "TTL (inserted c i e) = TTL c" "eps (inserted c i e) = eps c"
  by (simp_all add: inserted_def)

lemma touched_frame [simp]:
  "shardSize (touched c i el exp) = shardSize c"
  "length (shards (touched c i el exp)) = length (shards c)"
  "TTL (touched c i el exp) = TTL c" "eps (touched c i el exp) = eps c"
  by (simp_all add: touched_def)

subsection \<open>Each operation keeps the order of last use\<close>

lemma SetWithTTL_order:
  assumes inv: "cache_inv c" and set: "SetWithTTL c k v ttl t = Inr c1"
    and i: "i < length (shards c)" and ord: "by_last_use U (key_list c i)"
  shows "by_last_use (U @ (if getShard c k = Inr i then [k] else [])) (key_list c1 i)"
proof -
  obtain exp where gx: "genExp t ttl = (t, exp)" by (simp add: genExp_def)
  obtain j where sh: "getShard c k = Inr j" using set
    by (cases "getShard c k") (auto simp: SetWithTTL_def gx)
  have j: "j < length (shards c)" using sh by (rule getShard_bound)
  define e where "e = \<lparr>Key = k, Value = v, Expiration = (if ttl \<noteq> NoExpiration then exp else None)\<rparr>"
  let ?ks = "key_list c i"
  have fin: ?thesis
    if "key_list c1 i = (if j = i then X else ?ks)" and "by_last_use (U @ [k]) X" for X
    using that sh ord by (cases "j = i") simp_all
  note used = by_last_use_use [OF ord, of k]
  have miss: "cache_inv (inserted c' j e) \<and>
      key_list (inserted c' j e) i = (if j = i then k # removeAll k ?ks else ?ks) \<and>
      j < length (shards (inserted c' j e))"
    if ge: "getEntry c j k t exp = Inr (None, c')" for c'
  proof -
    from getEntry_keys [OF inv j ge, of i]
    have inv': "cache_inv c'" and kl: "key_list c' i = (if j = i then removeAll k ?ks else ?ks)"
      and absent: "table (shards c' ! j) k = None" by simp_all
    note fr = getEntry_frame [OF ge]
    have j': "j < length (shards c')" and i': "i < length (shards c')" using fr j i by simp_all
    have sh': "getShard c' k = Inr j" using sh getShard_cong [of c' c k] fr by simp
    have ke: "Key e = k" by (simp add: e_def)
    have "cache_inv (inserted c' j e)" by (rule cache_inv_inserted [OF inv' sh' absent ke])
    moreover have "key_list (inserted c' j e) i = (if j = i then k # removeAll k ?ks else ?ks)"
      using key_list_inserted [OF inv' j' i', of e] kl ke by simp
    ultimately show ?thesis using j' by simp
  qed
  from SetWithTTL_shape [OF set sh gx e_def] show ?thesis
  proof (elim disjE exE conjE)
    fix el c' assume ge: "getEntry c j k t exp = Inr (Some el, c')"
      and c1: "c1 = c'\<lparr>store := (store c')(el := (store c' el)\<lparr>Value := v\<rparr>)\<rparr>"
    from getEntry_keys [OF inv j ge, of i]
    have kl: "key_list c' i = (if j = i then k # removeAll k ?ks else ?ks)" by simp
    have "key_list c1 i = key_list c' i" unfolding c1 by (rule key_list_store) simp
    with kl have "key_list c1 i = (if j = i then k # removeAll k ?ks else ?ks)" by simp
    then show ?thesis using used by (rule fin)
  next
    fix c' assume ge: "getEntry c j k t exp = Inr (None, c')"
      and c1: "c1 = inserted c' j e"
    from miss [OF ge] c1 have "key_list c1 i = (if j = i then k # removeAll k ?ks else ?ks)"
      by simp
    then show ?thesis using used by (rule fin)
  next
    fix c' old assume ge: "getEntry c j k t exp = Inr (None, c')"
      and old: "old \<in> set (lst (shards (inserted c' j e) ! j))"
      and c1: "c1 = remove (inserted c' j e) j old"
    from miss [OF ge] have inv3: "cache_inv (inserted c' j e)"
      and kl3: "key_list (inserted c' j e) i = (if j = i then k # removeAll k ?ks else ?ks)"
      and j3: "j < length (shards (inserted c' j e))" by simp_all
    from key_list_remove [OF inv3 j3 old, of i] kl3 c1
    have "key_list c1 i =
      (if j = i then removeAll (Key (store (inserted c' j e) old)) (k # removeAll k ?ks) else ?ks)"
      by (cases "j = i") (simp_all del: removeAll.simps)
    then show ?thesis using by_last_use_drop [OF used] by (rule fin)
  qed
qed

lemma lookup_order:
  assumes inv: "cache_inv c" and sh: "getShard c k = Inr j"
    and ge: "getEntry c j k t exp = Inr (r, c')"
    and i: "i < length (shards c)" and ord: "by_last_use U (key_list c i)"
  shows "by_last_use (U @ (if found c i k t then [k] else [])) (key_list c' i)"
proof -
  have j: "j < length (shards c)" using sh by (rule getShard_bound)
  from getEntry_keys [OF inv j ge, of i]
  have kl: "key_list c' i =
          (if j = i then (if r = None then removeAll k (key_list c i)
                          else k # removeAll k (key_list c i))
           else key_list c i)"
    and f: "(r \<noteq> None) = (case table (shards c ! j) k of None \<Rightarrow> False | Some a \<Rightarrow> live c a t)"
    by simp_all
  show ?thesis
  proof (cases "j = i")
    case False
    with sh have "\<not> found c i k t" by (simp add: found_def)
    with kl False ord show ?thesis by simp
  next
    case True
    with sh f have fd: "found c i k t = (r \<noteq> None)" by (simp add: found_def)
    show ?thesis
    proof (cases r)
      case None
      with kl True fd by_last_use_drop [OF ord, of k] show ?thesis by simp
    next
      case (Some el)
      with kl True fd by_last_use_use [OF ord, of k] show ?thesis by simp
    qed
  qed
qed

lemma Get_order:
  assumes inv: "cache_inv c" and get: "Get c k t = Inr (r, c1)"
    and i: "i < length (shards c)" and ord: "by_last_use U (key_list c i)"
  shows "by_last_use (U @ (if found c i k t then [k] else [])) (key_list c1 i)"
proof -
  obtain j where sh: "getShard c k = Inr j" using get
    by (cases "getShard c k") (auto simp: Get_def genExp_def)
  obtain r' c' where ge: "getEntry c j k t (snd (genExp t (TTL c))) = Inr (r', c')"
    using get sh by (cases "getEntry c j k t (snd (genExp t (TTL c)))") (auto simp: Get_def genExp_def)
  from get sh ge have "c1 = c'" by (auto simp: Get_def genExp_def split: option.splits)
  with lookup_order [OF inv sh ge i ord] show ?thesis by simp
qed

lemma GetEntry_order:
  assumes inv: "cache_inv c" and get: "GetEntry c k t = Inr (r, c1)"
    and i: "i < length (shards c)" and ord: "by_last_use U (key_list c i)"
  shows "by_last_use (U @ (if found c i k t then [k] else [])) (key_list c1 i)"
proof -
  obtain j where sh: "getShard c k = Inr j" using get
    by (cases "getShard c k") (auto simp: GetEntry_def genExp_def)
  from get sh have ge: "getEntry c j k t (snd (genExp t (TTL c))) = Inr (r, c1)"
    by (simp add: GetEntry_def genExp_def)
  from lookup_order [OF inv sh ge i ord] show ?thesis .
qed

lemma GetEntry_cache_inv:
  assumes inv: "cache_inv c" and get: "GetEntry c k t = Inr (r, c1)"
  shows "cache_inv c1"
proof -
  obtain j where sh: "getShard c k = Inr j" using get
    by (cases "getShard c k") (auto simp: GetEntry_def genExp_def)
  from get sh have ge: "getEntry c j k t (snd (genExp t (TTL c))) = Inr (r, c1)"
    by (simp add: GetEntry_def genExp_def)
  from getEntry_cache_inv [OF inv getShard_bound [OF sh] ge] show ?thesis by simp
qed

lemma Update_order:
  assumes inv: "cache_inv c" and up: "Update c k cb t = Inr (r, c1)"
    and keeps: "\<forall>e. Key (cb e) = Key e"
    and i: "i < length (shards c)" and ord: "by_last_use U (key_list c i)"
  shows "by_last_use (U @ (if found c i k t then [k] else [])) (key_list c1 i)"
proof -
  obtain j where sh: "getShard c k = Inr j" using up
    by (cases "getShard c k") (auto simp: Update_def genExp_def)
  obtain r' c' where ge: "getEntry c j k t (snd (genExp t (TTL c))) = Inr (r', c')"
    using up sh by (cases "getEntry c j k t (snd (genExp t (TTL c)))") (auto simp: Update_def genExp_def)
  have "key_list c1 i = key_list c' i"
  proof (cases r')
    case None
    with up sh ge show ?thesis by (simp add: Update_def genExp_def)
  next
    case (Some el)
    with up sh ge have c1: "c1 = c'\<lparr>store := (store c')(el := cb (store c' el))\<rparr>"
      by (simp add: Update_def genExp_def)
    show ?thesis unfolding c1 by (rule key_list_store) (simp add: keeps)
  qed
  with lookup_order [OF inv sh ge i ord] show ?thesis by simp
qed

lemma Remove_order:
  assumes inv: "cache_inv c" and rm: "Remove c k = Inr c1"
    and i: "i < length (shards c)" and ord: "by_last_use U (key_list c i)"
  shows "by_last_use U (key_list c1 i)"
proof -
  obtain j where sh: "getShard c k = Inr j" using rm
    by (cases "getShard c k") (auto simp: Remove_def)
  have j: "j < length (shards c)" using sh by (rule getShard_bound)
  show ?thesis
  proof (cases "table (shards c ! j) k")
    case None
    with rm sh ord show ?thesis by (simp add: Remove_def lruShard_get_def)
  next
    case (Some el)
    with rm sh have c1: "c1 = remove c j el" by (simp add: Remove_def lruShard_get_def)
    from getEntry_keys_expired(2) [OF inv j Some, of i] c1
    have "key_list c1 i = (if j = i then removeAll k (key_list c i) else key_list c i)" by simp
    with ord by_last_use_drop [OF ord, of k] show ?thesis by (cases "j = i") simp_all
  qed
qed

end
